theory Spec2Isabelle
  imports Complex_Main "HOL-Library.Word"
begin

unbundle bit_operations_syntax

section \<open>pyblossom: the wire codec and the filter object of \<^verbatim>\<open>pyblossom.c\<close>\<close>

text \<open>
  The development follows \<^verbatim>\<open>src/pyblossom/pyblossom.c\<close>. Three things that file uses
  live elsewhere:
  \<^item> \<^verbatim>\<open>crc32\<close> comes from \<^verbatim>\<open>crc32.c\<close>. The codec takes it as a parameter
    \<open>crc32\<close> with the C signature (running value, bytes); \<open>crc32_standard\<close> is the
    CRC-32 of the specification, used where a concrete checksum is evaluated.
  \<^item> \<^verbatim>\<open>struct bloom\<close>, \<^verbatim>\<open>bloom_init\<close>, \<^verbatim>\<open>bloom_add\<close> and \<^verbatim>\<open>bloom_check\<close> come from
    \<^verbatim>\<open>../libblossom/bloom.h\<close>. They are written from the specification.
  \<^item> The quotient of two doubles is the platform's. The codec takes it as a parameter
    \<open>fdiv\<close>; every general theorem holds for every \<open>fdiv\<close>, and \<open>exact_fdiv\<close> is used
    where a concrete quotient is evaluated.
\<close>

subsection \<open>Machine types\<close>

type_synonym byte = "8 word"
type_synonym uint16_t = "16 word"
type_synonym uint32_t = "32 word"

text \<open>A C \<^verbatim>\<open>int\<close> is kept as its 32 bits; \<open>sint\<close> reads its value.\<close>

type_synonym c_int = "32 word"

text \<open>A C \<^verbatim>\<open>double\<close>: the real number it holds, or one of the three special values.\<close>

datatype double = Finite real | PlusInf | MinusInf | NaN

type_synonym fdiv_t = "double \<Rightarrow> double \<Rightarrow> double"
type_synonym crc32_t = "uint32_t \<Rightarrow> byte list \<Rightarrow> uint32_t"

text \<open>
  Conversion of a double to \<^verbatim>\<open>uint16_t\<close>, as at the call \<^verbatim>\<open>htons(1.0 / error)\<close>: the
  fractional part is discarded (truncation toward zero); when the integral part does
  not fit the type the C standard leaves the result undefined, which is \<open>None\<close> here.
\<close>

definition truncate_toward_zero :: "real \<Rightarrow> int" where
  "truncate_toward_zero r = (if 0 \<le> r then \<lfloor>r\<rfloor> else \<lceil>r\<rceil>)"

definition double_to_uint16 :: "double \<Rightarrow> uint16_t option" where
  "double_to_uint16 d =
     (case d of
        Finite r \<Rightarrow>
          (let t = truncate_toward_zero r
           in if 0 \<le> t \<and> t < 65536 then Some (word_of_int t) else None)
      | PlusInf \<Rightarrow> None
      | MinusInf \<Rightarrow> None
      | NaN \<Rightarrow> None)"

text \<open>\<^verbatim>\<open>uint16_t\<close> to double (the promotion in \<^verbatim>\<open>1.0 / error_rate\<close>) is exact.\<close>

definition uint16_to_double :: "uint16_t \<Rightarrow> double" where
  "uint16_to_double w = Finite (real (unat w))"

text \<open>
  Network byte order. \<^verbatim>\<open>htons\<close>/\<^verbatim>\<open>htonl\<close> followed by the copy of the struct's memory give
  the bytes most significant first; \<^verbatim>\<open>ntohs\<close>/\<^verbatim>\<open>ntohl\<close> of the memory read them back.
\<close>

definition htons :: "uint16_t \<Rightarrow> byte list" where
  "htons w = [ucast (drop_bit 8 w), ucast w]"

definition htonl :: "uint32_t \<Rightarrow> byte list" where
  "htonl w = [ucast (drop_bit 24 w), ucast (drop_bit 16 w), ucast (drop_bit 8 w), ucast w]"

definition ntohs :: "byte list \<Rightarrow> uint16_t" where
  "ntohs m = push_bit 8 (ucast (m ! 0)) OR ucast (m ! 1)"

definition ntohl :: "byte list \<Rightarrow> uint32_t" where
  "ntohl m = push_bit 24 (ucast (m ! 0)) OR push_bit 16 (ucast (m ! 1))
             OR push_bit 8 (ucast (m ! 2)) OR ucast (m ! 3)"

subsection \<open>The filter structure and its construction\<close>

text \<open>
  \<^verbatim>\<open>struct bloom\<close>. The source reads the fields \<^verbatim>\<open>entries\<close>, \<^verbatim>\<open>error\<close>, \<^verbatim>\<open>bytes\<close> and \<^verbatim>\<open>bf\<close>;
  \<open>bits\<close> and \<open>hashes\<close> are the specification's \<open>bit_count\<close> and \<open>hash_count\<close>.
\<close>

record bloom =
  entries :: c_int
  error :: double
  bits :: nat
  bytes :: nat
  hashes :: nat
  bf :: "byte list"

text \<open>
  Modelled from the spec: \<^verbatim>\<open>bloom_init\<close> (libblossom) is not part of the sources at hand.
  Specification, Construct: preconditions \<open>capacity > 0\<close> and \<open>0 < target_error_rate < 1\<close>;
  \<open>bit_count = ceil(-capacity * ln(target_error_rate) / (ln 2)^2)\<close>, minimum 1;
  \<open>hash_count = round((bit_count / capacity) * ln 2)\<close>, at least 1; the bit array has
  \<open>ceil(bit_count/8)\<close> bytes, all zero. \<open>None\<close> is the non-zero return value.
  Exhausted memory is not modelled.
\<close>

definition bit_count :: "int \<Rightarrow> real \<Rightarrow> nat" where
  "bit_count capacity p = max 1 (nat \<lceil>- real_of_int capacity * ln p / (ln 2)\<^sup>2\<rceil>)"

definition hash_count :: "nat \<Rightarrow> int \<Rightarrow> nat" where
  "hash_count m capacity = max 1 (nat (round (real m / real_of_int capacity * ln 2)))"

definition bloom_init :: "c_int \<Rightarrow> double \<Rightarrow> bloom option" where
  "bloom_init n err =
     (case err of
        Finite p \<Rightarrow>
          if sint n < 1 \<or> p \<le> 0 \<or> 1 \<le> p then None
          else
            (let m = bit_count (sint n) p
             in Some \<lparr>entries = n, error = err, bits = m, bytes = (m + 7) div 8,
                      hashes = hash_count m (sint n),
                      bf = replicate ((m + 7) div 8) 0\<rparr>)
      | PlusInf \<Rightarrow> None
      | MinusInf \<Rightarrow> None
      | NaN \<Rightarrow> None)"

text \<open>The errors the module raises, named after the specification; the message of the
  source is given with each.\<close>

datatype error =
    TruncatedInput      \<comment> \<open>\<^verbatim>\<open>incomplete payload\<close>\<close>
  | ChecksumMismatch    \<comment> \<open>\<^verbatim>\<open>checksum mismatch\<close>\<close>
  | UnsupportedBuffer   \<comment> \<open>\<^verbatim>\<open>buffer interface is not supported by provided data type\<close>\<close>
  | BufferUnavailable   \<comment> \<open>\<^verbatim>\<open>could not get buffer from provided data type\<close>\<close>
  | LengthMismatch      \<comment> \<open>\<^verbatim>\<open>invalid data length\<close>\<close>
  | InvalidParameters   \<comment> \<open>\<^verbatim>\<open>internal initialization failed\<close>\<close>

text \<open>
  The optional third argument of the constructor: an object without the buffer
  interface, one whose buffer cannot be obtained, or one that yields its bytes.
\<close>

datatype py_object = NoBufferInterface | BufferRefused | Buffer "byte list"

text \<open>
  \<^verbatim>\<open>Filter_init\<close> (lines 250-292). \<open>Inl e\<close> is the return value \<open>-1\<close> with the error \<open>e\<close> set, \<open>Inr b\<close> the
  return value \<open>0\<close> with \<open>b\<close> the structure now held by the object. The length of the
  buffer is a \<^verbatim>\<open>Py_ssize_t\<close> (64 bits); the source compares \<^verbatim>\<open>(int)buf.len\<close>, its low 32
  bits read as signed, with \<^verbatim>\<open>bytes\<close>, and copies \<^verbatim>\<open>bytes\<close> bytes.
\<close>

definition Filter_init :: "c_int \<Rightarrow> double \<Rightarrow> py_object option \<Rightarrow> error + bloom" where
  "Filter_init entries_arg error_arg buf_src =
     (case bloom_init entries_arg error_arg of
        Some bloom_struct \<Rightarrow>
          (case buf_src of
             None \<Rightarrow> Inr bloom_struct
           | Some NoBufferInterface \<Rightarrow> Inl UnsupportedBuffer
           | Some BufferRefused \<Rightarrow> Inl BufferUnavailable
           | Some (Buffer buf) \<Rightarrow>
               if sint (word_of_nat (length buf) :: c_int) \<noteq> int (bytes bloom_struct)
               then Inl LengthMismatch
               else Inr (bloom_struct\<lparr>bf := take (bytes bloom_struct) buf\<rparr>))
      | None \<Rightarrow> Inl InvalidParameters)"

subsection \<open>The wire codec\<close>

text \<open>
  \<^verbatim>\<open>sizeof(struct serialized_filter_header)\<close> (lines 42-46): two 16-bit fields and one
  32-bit field.
\<close>

definition header_size :: nat where
  "header_size = 2 + 2 + 4"

text \<open>
  \<^verbatim>\<open>instantiate_filter\<close> (lines 50-60): the argument tuple is built with the format \<^verbatim>\<open>(ids#)\<close>, so the
  unsigned \<open>cardinality\<close> is handed over as a C \<^verbatim>\<open>int\<close> (the same 32 bits), the error is
  \<^verbatim>\<open>1.0 / error_rate\<close> and the data are the first \<open>datalen\<close> bytes. A failing
  \<^verbatim>\<open>tp_init\<close> releases the object: no filter is returned.
\<close>

definition instantiate_filter ::
    "fdiv_t \<Rightarrow> uint32_t \<Rightarrow> uint16_t \<Rightarrow> byte list \<Rightarrow> nat \<Rightarrow> error + bloom" where
  "instantiate_filter fdiv cardinality error_rate data datalen =
     (case Filter_init cardinality (fdiv (Finite 1) (uint16_to_double error_rate))
             (Some (Buffer (take datalen data))) of
        Inl e \<Rightarrow> Inl e
      | Inr obj \<Rightarrow> Inr obj)"

text \<open>\<^verbatim>\<open>compute_checksum\<close> (lines 63-68).\<close>

definition compute_checksum :: "crc32_t \<Rightarrow> byte list \<Rightarrow> nat \<Rightarrow> uint16_t" where
  "compute_checksum crc32 buf len =
     (let checksum32 = crc32 0 (take len buf)
      in ucast ((checksum32 AND 0xFFFF) XOR drop_bit 16 checksum32))"

text \<open>The two readers (lines 70-84) return the value and the advanced cursor.\<close>

definition read_uint16 :: "byte list \<Rightarrow> uint16_t \<times> byte list" where
  "read_uint16 buffer = (ntohs buffer, drop 2 buffer)"

definition read_uint32 :: "byte list \<Rightarrow> uint32_t \<times> byte list" where
  "read_uint32 buffer = (ntohl buffer, drop 4 buffer)"

text \<open>
  \<^verbatim>\<open>load\<close> (lines 88-118). The argument is a Python string, parsed with the format
  \<^verbatim>\<open>s#\<close>: \<open>buffer\<close> is its bytes and \<open>buflen\<close> its length (parsing the arguments is
  outside the model). The format admits strings shorter than \<open>2^31\<close> bytes only, so
  passing \<open>datalen\<close> to the \<^verbatim>\<open>int\<close> parameter of \<^verbatim>\<open>instantiate_filter\<close> does not change it.
  \<open>Inl\<close> is the return value \<^verbatim>\<open>NULL\<close> with the error set.
\<close>

definition load :: "fdiv_t \<Rightarrow> crc32_t \<Rightarrow> byte list \<Rightarrow> error + bloom" where
  "load fdiv crc32 buffer =
     (let buflen = length buffer
      in if buflen < header_size + 1 then Inl TruncatedInput
         else
           (let (checksum, buffer1) = read_uint16 buffer;
                (error_rate, buffer2) = read_uint16 buffer1;
                (cardinality, buffer3) = read_uint32 buffer2;
                data = buffer3;
                datalen = buflen - header_size;
                expected_checksum = compute_checksum crc32 data datalen
            in if expected_checksum \<noteq> checksum then Inl ChecksumMismatch
               else instantiate_filter fdiv cardinality error_rate data datalen))"

text \<open>
  \<^verbatim>\<open>dump\<close> (lines 120-142). \<open>None\<close> stands for the one case in which C gives the function no defined
  result: the reciprocal of the error rate does not fit \<^verbatim>\<open>uint16_t\<close>.
\<close>

definition dump :: "fdiv_t \<Rightarrow> crc32_t \<Rightarrow> bloom \<Rightarrow> byte list option" where
  "dump fdiv crc32 flt =
     (let checksum = compute_checksum crc32 (bf flt) (bytes flt)
      in case double_to_uint16 (fdiv (Finite 1) (error flt)) of
           None \<Rightarrow> None
         | Some reciprocal \<Rightarrow>
             Some (htons checksum @ htons reciprocal @ htonl (entries flt)
                   @ take (bytes flt) (bf flt)))"

subsection \<open>The filter object's methods\<close>

text \<open>
  Modelled from the spec: \<^verbatim>\<open>bloom_add\<close> and \<^verbatim>\<open>bloom_check\<close> (libblossom) are not part of
  the sources at hand. Specification, Add: the probe positions are
  \<open>p_i = (h1 + i*h2) mod bit_count\<close> for \<open>i\<close> in \<open>0..hash_count\<close>, with \<open>h1\<close>, \<open>h2\<close> two base
  hash values of the member, and bit \<open>p_i\<close> is set to 1; Check computes the same
  positions and answers true iff all those bits are 1. The two hash functions are
  parameters. Bit \<open>p\<close> is bit \<open>p mod 8\<close> of byte \<open>p div 8\<close>.
\<close>

type_synonym hash_t = "byte list \<Rightarrow> nat"

definition probe_positions :: "hash_t \<Rightarrow> hash_t \<Rightarrow> bloom \<Rightarrow> byte list \<Rightarrow> nat list" where
  "probe_positions h1 h2 b member =
     map (\<lambda>i. (h1 member + i * h2 member) mod bits b) [0..<hashes b]"

definition set_bit_at :: "nat \<Rightarrow> byte list \<Rightarrow> byte list" where
  "set_bit_at p bs = bs[p div 8 := (bs ! (p div 8)) OR push_bit (p mod 8) 1]"

definition test_bit_at :: "byte list \<Rightarrow> nat \<Rightarrow> bool" where
  "test_bit_at bs p = bit (bs ! (p div 8)) (p mod 8)"

definition bloom_add :: "hash_t \<Rightarrow> hash_t \<Rightarrow> bloom \<Rightarrow> byte list \<Rightarrow> bloom" where
  "bloom_add h1 h2 b member =
     b\<lparr>bf := fold set_bit_at (probe_positions h1 h2 b member) (bf b)\<rparr>"

definition bloom_check :: "hash_t \<Rightarrow> hash_t \<Rightarrow> bloom \<Rightarrow> byte list \<Rightarrow> bool" where
  "bloom_check h1 h2 b member =
     list_all (test_bit_at (bf b)) (probe_positions h1 h2 b member)"

text \<open>
  \<^verbatim>\<open>Filter_add\<close> and \<^verbatim>\<open>Filter_check\<close> (lines 175-201) pass the argument's bytes on; the first returns
  \<^verbatim>\<open>None\<close> and leaves the changed structure in the object, the second returns the
  truth value.
\<close>

definition Filter_add :: "hash_t \<Rightarrow> hash_t \<Rightarrow> bloom \<Rightarrow> byte list \<Rightarrow> bloom" where
  "Filter_add h1 h2 self buffer = bloom_add h1 h2 self buffer"

definition Filter_check :: "hash_t \<Rightarrow> hash_t \<Rightarrow> bloom \<Rightarrow> byte list \<Rightarrow> bool" where
  "Filter_check h1 h2 self buffer = (if bloom_check h1 h2 self buffer then True else False)"

subsection \<open>The invariant of a filter\<close>

text \<open>
  The invariants of the specification's data model: a positive capacity, an error rate
  in \<open>(0,1)\<close>, the derived \<open>bit_count\<close> and \<open>hash_count\<close>, and a bit array of exactly
  \<open>ceil(bit_count/8)\<close> bytes.
\<close>

definition bloom_valid :: "bloom \<Rightarrow> bool" where
  "bloom_valid b =
     (1 \<le> sint (entries b)
      \<and> (case error b of
            Finite p \<Rightarrow> 0 < p \<and> p < 1 \<and> bits b = bit_count (sint (entries b)) p
          | PlusInf \<Rightarrow> False
          | MinusInf \<Rightarrow> False
          | NaN \<Rightarrow> False)
      \<and> 1 \<le> bits b
      \<and> hashes b = hash_count (bits b) (sint (entries b))
      \<and> bytes b = (bits b + 7) div 8
      \<and> length (bf b) = bytes b)"

subsection \<open>Concrete instances\<close>

text \<open>
  Modelled from the spec: \<^verbatim>\<open>crc32.c\<close> is not part of the sources at hand. Specification:
  a 32-bit CRC with the standard polynomial and initial state 0, called as
  \<^verbatim>\<open>crc32(0, buf, len)\<close>. This is the CRC-32 of IEEE 802.3 in its usual reflected form
  (polynomial \<open>0xEDB88320\<close>), bit by bit; the running value is complemented on entry and
  on exit, so that the initial value 0 gives the standard checksum.
\<close>

definition crc32_shift :: "uint32_t \<Rightarrow> uint32_t" where
  "crc32_shift c = (if bit c 0 then drop_bit 1 c XOR 0xEDB88320 else drop_bit 1 c)"

definition crc32_byte :: "uint32_t \<Rightarrow> byte \<Rightarrow> uint32_t" where
  "crc32_byte c b = (crc32_shift ^^ 8) (c XOR ucast b)"

definition crc32_standard :: crc32_t where
  "crc32_standard crc buf = foldl crc32_byte (crc XOR 0xFFFFFFFF) buf XOR 0xFFFFFFFF"

text \<open>
  A division for concrete evaluation: the quotient before rounding. At the operands
  used below the rounded quotient of IEEE 754 is the same number or has the same
  integral part.
\<close>

definition exact_fdiv :: fdiv_t where
  "exact_fdiv a b =
     (case (a, b) of
        (Finite x, Finite y) \<Rightarrow>
          if y = 0 then (if x = 0 then NaN else if 0 < x then PlusInf else MinusInf)
          else Finite (x / y)
      | _ \<Rightarrow> NaN)"

text \<open>The filter \<^verbatim>\<open>Filter(1, 0.5)\<close>: two bits in one byte, one probe.\<close>

definition example_filter :: bloom where
  "example_filter =
     \<lparr>entries = 1, error = Finite (1/2), bits = 2, bytes = 1, hashes = 1, bf = [0]\<rparr>"

text \<open>A filter record with the error rate \<open>3/8\<close>, whose reciprocal is not an integer.\<close>

definition example_filter_3_8 :: bloom where
  "example_filter_3_8 =
     \<lparr>entries = 1, error = Finite (3/8), bits = 3, bytes = 1, hashes = 2, bf = [0]\<rparr>"

text \<open>The filter \<^verbatim>\<open>Filter(1, 0.75)\<close>: one bit, one probe.\<close>

definition example_filter_3_4 :: bloom where
  "example_filter_3_4 =
     \<lparr>entries = 1, error = Finite (3/4), bits = 1, bytes = 1, hashes = 1, bf = [0]\<rparr>"

text \<open>A buffer of \<open>n\<close> zero bytes.\<close>

definition zeros :: "nat \<Rightarrow> byte list" where
  "zeros n = replicate n 0"

subsection \<open>Flipping one bit, and powers of the CRC shift\<close>

text \<open>Bit \<open>i\<close> of a byte sequence is bit \<open>i mod 8\<close> of byte \<open>i div 8\<close>.\<close>

definition flip_bit_at :: "nat \<Rightarrow> byte list \<Rightarrow> byte list" where
  "flip_bit_at i bs = bs[i div 8 := bs ! (i div 8) XOR 2 ^ (i mod 8)]"

text \<open>
  \<open>crc32_shift\<close> is linear over exclusive or, so its \<open>m\<close>-th power is determined by the
  images of the 32 one-bit words: \<open>lin_apply\<close> applies a linear map given by these
  images. \<open>crc32_power m\<close> is the \<open>m\<close>-th power at the word \<open>0x80000000\<close>, the images of the
  other one-bit words are its successors under \<open>crc32_shift\<close>, and \<open>crc32_mul\<close> composes
  two powers.
\<close>

fun lin_apply :: "uint32_t list \<Rightarrow> uint32_t \<Rightarrow> uint32_t" where
  "lin_apply [] c = 0"
| "lin_apply (t # ts) c =
     (if bit c 0 then t XOR lin_apply ts (drop_bit 1 c) else lin_apply ts (drop_bit 1 c))"

definition basis_images :: "(uint32_t \<Rightarrow> uint32_t) \<Rightarrow> uint32_t list" where
  "basis_images L = map (\<lambda>j. L (2 ^ j)) [0..<32]"

fun crc32_orbit :: "nat \<Rightarrow> uint32_t \<Rightarrow> uint32_t list" where
  "crc32_orbit 0 x = []"
| "crc32_orbit (Suc n) x = x # crc32_orbit n (crc32_shift x)"

definition crc32_mul :: "uint32_t \<Rightarrow> uint32_t \<Rightarrow> uint32_t" where
  "crc32_mul a c = lin_apply (rev (crc32_orbit 32 a)) c"

definition crc32_power :: "nat \<Rightarrow> uint32_t" where
  "crc32_power m = (crc32_shift ^^ m) 0x80000000"

text \<open>
  The fresh filter \<^verbatim>\<open>Filter(172032, 0.5)\<close> (248190 bits in 31024 bytes), its dump, and
  bit 6 of payload byte 9520, which lies 21504 bytes before the end of the payload.
\<close>

definition large_filter :: bloom where
  "large_filter =
     \<lparr>entries = 172032, error = Finite (1/2), bits = 248190, bytes = 31024, hashes = 1,
      bf = zeros 31024\<rparr>"

definition large_dump :: "byte list" where
  "large_dump = [0xD0, 0x53, 0x00, 0x02, 0x00, 0x02, 0xA0, 0x00] @ zeros 31024"

definition undetected_bit :: nat where
  "undetected_bit = 8 * 9520 + 6"

section \<open>Auxiliary facts\<close>

lemma funpow_numeral_unfold: "(f ^^ numeral n) x = (f ^^ pred_numeral n) (f x)"
  by (simp add: numeral_eq_Suc funpow_swap1)

lemma ntohs_htons: "ntohs (htons w @ xs) = w"
  unfolding ntohs_def htons_def
  by (rule bit_word_eqI) (auto simp add: bit_simps)

lemma ntohl_htonl: "ntohl (htonl w @ xs) = w"
proof (rule bit_word_eqI)
  fix n assume "n < LENGTH(32)"
  then consider "n < 8" | "8 \<le> n" "n < 16" | "16 \<le> n" "n < 24" | "24 \<le> n" "n < 32"
    by fastforce
  then show "bit (ntohl (htonl w @ xs)) n = bit w n"
    unfolding ntohl_def htonl_def by cases (auto simp add: bit_simps)
qed

lemma load_unfold:
  "9 \<le> length buffer \<Longrightarrow>
   load fdiv crc32 buffer =
     (if compute_checksum crc32 (drop 8 buffer) (length buffer - 8) \<noteq> ntohs buffer
      then Inl ChecksumMismatch
      else instantiate_filter fdiv (ntohl (drop 4 buffer)) (ntohs (drop 2 buffer))
             (drop 8 buffer) (length buffer - 8))"
  by (simp add: load_def header_size_def read_uint16_def read_uint32_def Let_def
      ntohs_def ntohl_def)

lemma load_truncated_length:
  "length buffer < 9 \<Longrightarrow> load fdiv crc32 buffer = Inl TruncatedInput"
  by (simp add: load_def header_size_def)

lemma instantiate_filter_eq:
  "instantiate_filter fdiv cardinality error_rate data datalen =
     Filter_init cardinality (fdiv (Finite 1) (uint16_to_double error_rate))
       (Some (Buffer (take datalen data)))"
  by (simp add: instantiate_filter_def split: sum.splits)

subsection \<open>The sizes of two small filters\<close>

lemma ln2_gt_half: "1/2 < ln (2::real)"
proof -
  have "exp (1/2 :: real) \<le> 1 + 1/2 + (1/2)\<^sup>2" by (rule exp_bound) simp_all
  also have "\<dots> < 2" by (simp add: power2_eq_square)
  finally have "exp (1/2::real) < exp (ln 2)" by simp
  then show ?thesis by (simp only: exp_less_cancel_iff)
qed

lemma ln2_lt_three_quarters: "ln (2::real) < 3/4"
proof -
  have "(1 + (3/4) / real 8) ^ 8 \<le> exp (3/4 :: real)"
    by (rule exp_ge_one_plus_x_over_n_power_n) simp_all
  moreover have "(2::real) < (1 + (3/4) / real 8) ^ 8" by (simp add: eval_nat_numeral)
  ultimately have "exp (ln 2) < exp (3/4 :: real)" by simp
  then show ?thesis by (simp only: exp_less_cancel_iff)
qed

lemma bit_count_1_half: "bit_count 1 (1/2) = 2"
proof -
  have l: "ln (1/2 :: real) = - ln 2" by (simp add: ln_div)
  have "- real_of_int 1 * ln (1/2) / (ln 2)\<^sup>2 = 1 / ln (2::real)"
    by (simp add: l power2_eq_square)
  moreover have "\<lceil>1 / ln (2::real)\<rceil> = 2"
  proof (rule ceiling_unique)
    show "real_of_int 2 - 1 < 1 / ln 2" using ln_2_less_1 ln2_gt_half by (simp add: field_simps)
    show "1 / ln 2 \<le> real_of_int 2" using ln2_gt_half by (simp add: field_simps)
  qed
  ultimately show ?thesis by (simp add: bit_count_def)
qed

lemma hash_count_2_1: "hash_count 2 1 = 1"
proof -
  have "round (2 * ln (2::real)) = 1"
    unfolding round_def
    by (rule floor_unique) (use ln2_gt_half ln2_lt_three_quarters in simp_all)
  then show ?thesis by (simp add: hash_count_def)
qed

lemma bloom_init_example: "bloom_init 1 (Finite (1/2)) = Some example_filter"
  by (simp add: bloom_init_def bit_count_1_half hash_count_2_1 example_filter_def)

lemma crc32_standard_zero_byte: "crc32_standard 0 [0] = 0xD202EF8D"
  by (simp add: crc32_standard_def crc32_byte_def crc32_shift_def funpow_numeral_unfold)

lemma compute_checksum_zero_byte: "compute_checksum crc32_standard [0] (Suc 0) = 0x3D8F"
  by (simp add: compute_checksum_def crc32_standard_zero_byte)

lemma dump_Some:
  assumes "dump fdiv crc32 f = Some buf" and "bytes f = length (bf f)"
  obtains reciprocal where
    "double_to_uint16 (fdiv (Finite 1) (error f)) = Some reciprocal"
    "buf = htons (compute_checksum crc32 (bf f) (length (bf f))) @ htons reciprocal
           @ htonl (entries f) @ bf f"
  using assms by (auto simp add: dump_def Let_def split: option.splits)

lemma length_htons [simp]: "length (htons w) = 2"
  by (simp add: htons_def)

lemma length_htonl [simp]: "length (htonl w) = 4"
  by (simp add: htonl_def)

lemma header_fields:
  assumes "buf = htons c @ htons r @ htonl n @ payload"
  shows "length buf = 8 + length payload"
    and "ntohs buf = c" and "ntohs (drop 2 buf) = r" and "ntohl (drop 4 buf) = n"
    and "drop 8 buf = payload"
  by (simp_all add: assms ntohs_htons ntohl_htonl)

lemma header_bytes:
  assumes "buf = htons c @ htons r @ htonl n @ payload"
  shows "take 8 buf =
    [ucast (drop_bit 8 c), ucast c, ucast (drop_bit 8 r), ucast r,
     ucast (drop_bit 24 n), ucast (drop_bit 16 n), ucast (drop_bit 8 n), ucast n]"
  by (simp add: assms htons_def htonl_def)

lemma dump_example:
  "dump exact_fdiv crc32_standard example_filter = Some [0x3D, 0x8F, 0, 2, 0, 0, 0, 1, 0]"
  by (simp add: dump_def example_filter_def compute_checksum_zero_byte exact_fdiv_def
      double_to_uint16_def truncate_toward_zero_def htons_def htonl_def Let_def)

lemma Filter_init_not_checksum:
  "Filter_init n e src \<noteq> Inl ChecksumMismatch" "Filter_init n e src \<noteq> Inl TruncatedInput"
  by (simp_all add: Filter_init_def split: option.splits py_object.splits)

lemma sint32_eq:
  "sint (w :: c_int) = (if uint w < 2 ^ 31 then uint w else uint w - 2 ^ 32)"
proof -
  have b: "0 \<le> uint w" "uint w < 2 ^ 32" using uint_lt2p [of w] by simp_all
  have s: "sint w = (uint w + 2 ^ 31) mod 2 ^ 32 - 2 ^ 31"
    by (simp add: sint_uint signed_take_bit_eq_take_bit_shift take_bit_eq_mod)
  show ?thesis
  proof (cases "uint w < 2 ^ 31")
    case True
    then have "(uint w + 2 ^ 31) mod 2 ^ 32 = uint w + 2 ^ 31"
      using b by (intro mod_pos_pos_trivial) simp_all
    with True s show ?thesis by simp
  next
    case False
    have "(uint w + 2 ^ 31) mod 2 ^ 32 = (uint w + 2 ^ 31 - 2 ^ 32) mod 2 ^ 32"
      by (metis mod_diff_right_eq mod_self diff_zero)
    also have "\<dots> = uint w + 2 ^ 31 - 2 ^ 32"
      using b False by (intro mod_pos_pos_trivial) simp_all
    finally show ?thesis using False s by simp
  qed
qed

lemma Filter_init_Inr_entries:
  "Filter_init n e src = Inr g \<Longrightarrow> entries g = n \<and> 1 \<le> sint n"
  by (auto simp add: Filter_init_def bloom_init_def Let_def
      split: option.splits py_object.splits double.splits if_splits)

lemma Filter_init_Inr_error:
  "Filter_init n e src = Inr g \<Longrightarrow> error g = e"
  by (auto simp add: Filter_init_def bloom_init_def Let_def
      split: option.splits py_object.splits double.splits if_splits)

lemma Filter_init_negative:
  "sint n < 1 \<Longrightarrow> Filter_init n e src = Inl InvalidParameters"
  by (simp add: Filter_init_def bloom_init_def split: double.splits)

lemma load_Inr:
  assumes "load fdiv crc32 buffer = Inr g"
  shows "9 \<le> length buffer"
    and "ntohs buffer = compute_checksum crc32 (drop 8 buffer) (length buffer - 8)"
    and "Filter_init (ntohl (drop 4 buffer))
           (fdiv (Finite 1) (uint16_to_double (ntohs (drop 2 buffer))))
           (Some (Buffer (drop 8 buffer))) = Inr g"
proof -
  show l: "9 \<le> length buffer"
    using assms by (cases "length buffer < 9") (simp_all add: load_def header_size_def)
  from assms load_unfold [OF l, of fdiv crc32]
  show "ntohs buffer = compute_checksum crc32 (drop 8 buffer) (length buffer - 8)"
    by (simp split: if_splits)
  from assms load_unfold [OF l, of fdiv crc32]
  show "Filter_init (ntohl (drop 4 buffer))
           (fdiv (Finite 1) (uint16_to_double (ntohs (drop 2 buffer))))
           (Some (Buffer (drop 8 buffer))) = Inr g"
    by (simp add: instantiate_filter_eq split: if_splits)
qed

lemma example_filter_fields:
  "bytes example_filter = length (bf example_filter)" "bf example_filter = [0]"
  "entries example_filter = 1" "error example_filter = Finite (1/2)"
  by (simp_all add: example_filter_def)

lemma Filter_init_example:
  "Filter_init 1 (Finite (1/2)) None = Inr example_filter"
  "Filter_init 1 (Finite (1/2)) (Some (Buffer [0])) = Inr example_filter"
  by (simp_all add: Filter_init_def bloom_init_example) (simp_all add: example_filter_def)

lemma load_example:
  "load exact_fdiv crc32_standard [0x3D, 0x8F, 0, 2, 0, 0, 0, 1, 0] = Inr example_filter"
  by (simp add: load_unfold compute_checksum_zero_byte ntohs_def ntohl_def
      instantiate_filter_eq uint16_to_double_def exact_fdiv_def Filter_init_example)

lemma dump_example_3_8:
  "dump exact_fdiv crc32_standard example_filter_3_8 = Some [0x3D, 0x8F, 0, 2, 0, 0, 0, 1, 0]"
  by (simp add: dump_def example_filter_3_8_def compute_checksum_zero_byte exact_fdiv_def
      double_to_uint16_def truncate_toward_zero_def htons_def htonl_def Let_def)

lemma ln2_gt_29_50: "29/50 < ln (2::real)"
proof -
  have "exp (29/50 :: real) \<le> 1 + 29/50 + (29/50)\<^sup>2" by (rule exp_bound) simp_all
  also have "\<dots> < 2" by (simp add: power2_eq_square)
  finally have "exp (29/50::real) < exp (ln 2)" by simp
  then show ?thesis by (simp only: exp_less_cancel_iff)
qed

lemma bit_count_1_three_quarters: "bit_count 1 (3/4) = 1"
proof -
  have "ln (4/3 :: real) = ln (1 + 1/3)" by simp
  also have "\<dots> \<le> 1/3" by (rule ln_add_one_self_le_self) simp
  finally have a: "ln (4/3 :: real) \<le> 1/3" .
  have "(29/50 :: real)\<^sup>2 < (ln 2)\<^sup>2"
    using ln2_gt_29_50 by (intro power_strict_mono) simp_all
  then have b: "1/3 < (ln (2::real))\<^sup>2" by (simp add: power2_eq_square)
  have l: "ln (3/4 :: real) = - ln (4/3)"
    using ln_inverse [of "4/3 :: real"] by simp
  have "- real_of_int 1 * ln (3/4) / (ln 2)\<^sup>2 = ln (4/3) / (ln (2::real))\<^sup>2"
    by (simp add: l)
  moreover have "ln (4/3) / (ln (2::real))\<^sup>2 \<le> 1"
    using a b by (simp add: field_simps)
  ultimately have "\<lceil>- real_of_int 1 * ln (3/4) / (ln 2)\<^sup>2\<rceil> \<le> 1"
    by (simp only: ceiling_le_iff of_int_1)
  then have "nat \<lceil>- real_of_int 1 * ln (3/4) / (ln 2)\<^sup>2\<rceil> \<le> 1"
    by linarith
  then show ?thesis unfolding bit_count_def by (rule max_absorb1)
qed

lemma hash_count_1_1: "hash_count (Suc 0) 1 = Suc 0"
proof -
  have "round (ln (2::real)) = 1"
    unfolding round_def
    by (rule floor_unique) (use ln2_gt_half ln_2_less_1 in simp_all)
  then show ?thesis unfolding hash_count_def by simp
qed

lemma bloom_init_example_3_4: "bloom_init 1 (Finite (3/4)) = Some example_filter_3_4"
  by (simp add: bloom_init_def bit_count_1_three_quarters hash_count_1_1 example_filter_3_4_def)

lemma dump_example_3_4:
  "dump exact_fdiv crc32_standard example_filter_3_4 = Some [0x3D, 0x8F, 0, 1, 0, 0, 0, 1, 0]"
  by (simp add: dump_def example_filter_3_4_def compute_checksum_zero_byte exact_fdiv_def
      double_to_uint16_def truncate_toward_zero_def htons_def htonl_def Let_def)

lemma load_example_3_4:
  "load exact_fdiv crc32_standard [0x3D, 0x8F, 0, 1, 0, 0, 0, 1, 0] = Inl InvalidParameters"
  by (simp add: load_unfold compute_checksum_zero_byte ntohs_def ntohl_def
      instantiate_filter_eq uint16_to_double_def exact_fdiv_def Filter_init_def bloom_init_def)

lemma sint_word_of_nat_eq:
  assumes "sint (word_of_nat l :: c_int) = int b"
  shows "b \<le> l" and "int b < 2 ^ 31" and "int b = int l mod 2 ^ 32"
proof -
  let ?w = "word_of_nat l :: c_int"
  have u: "uint ?w = int l mod 2 ^ 32"
    by (simp add: uint_nat unat_of_nat zmod_int)
  have r: "0 \<le> uint ?w" "uint ?w < 2 ^ 32" using uint_lt2p [of ?w] by simp_all
  from assms r have e: "uint ?w = int b" "uint ?w < 2 ^ 31"
    by (auto simp add: sint32_eq [of ?w] split: if_splits)
  from e u show "int b = int l mod 2 ^ 32" by simp
  from e show "int b < 2 ^ 31" by simp
  have "int l mod 2 ^ 32 \<le> int l" by (rule zmod_le_nonneg_dividend) simp
  with e u show "b \<le> l" by simp
qed

lemma sint_word_of_nat_small:
  "int l < 2 ^ 31 \<Longrightarrow> sint (word_of_nat l :: c_int) = int l"
proof -
  assume a: "int l < 2 ^ 31"
  let ?w = "word_of_nat l :: c_int"
  have "uint ?w = int l mod 2 ^ 32" by (simp add: uint_nat unat_of_nat zmod_int)
  also have "\<dots> = int l" using a by (intro mod_pos_pos_trivial) simp_all
  finally have u: "uint ?w = int l" .
  with a show ?thesis by (simp add: sint32_eq [of ?w])
qed

lemma bit_count_pos: "1 \<le> bit_count c p"
  by (simp add: bit_count_def)

lemma bloom_init_Some:
  assumes "bloom_init n e = Some b"
  obtains p where "e = Finite p" "1 \<le> sint n" "0 < p" "p < 1"
    "b = \<lparr>entries = n, error = e, bits = bit_count (sint n) p,
          bytes = (bit_count (sint n) p + 7) div 8,
          hashes = hash_count (bit_count (sint n) p) (sint n),
          bf = replicate ((bit_count (sint n) p + 7) div 8) 0\<rparr>"
proof (cases e)
  case (Finite p)
  with assms have "1 \<le> sint n \<and> 0 < p \<and> p < 1"
    by (simp add: bloom_init_def split: if_splits)
  moreover from this assms Finite have
    "b = \<lparr>entries = n, error = e, bits = bit_count (sint n) p,
          bytes = (bit_count (sint n) p + 7) div 8,
          hashes = hash_count (bit_count (sint n) p) (sint n),
          bf = replicate ((bit_count (sint n) p + 7) div 8) 0\<rparr>"
    by (simp add: bloom_init_def Let_def)
  ultimately show ?thesis using that Finite by blast
qed (use assms in \<open>simp_all add: bloom_init_def\<close>)

lemma bloom_init_valid:
  assumes "bloom_init n e = Some b"
  shows "bloom_valid b \<and> entries b = n \<and> error b = e"
proof -
  from assms obtain p where p: "e = Finite p" "1 \<le> sint n" "0 < p" "p < 1"
    "b = \<lparr>entries = n, error = e, bits = bit_count (sint n) p,
          bytes = (bit_count (sint n) p + 7) div 8,
          hashes = hash_count (bit_count (sint n) p) (sint n),
          bf = replicate ((bit_count (sint n) p + 7) div 8) 0\<rparr>"
    by (rule bloom_init_Some)
  then show ?thesis
    using bit_count_pos [of "sint n" p] by (simp add: bloom_valid_def)
qed

lemma Filter_init_valid:
  assumes "Filter_init n e src = Inr f"
  shows "bloom_valid f"
proof (cases "bloom_init n e")
  case None
  with assms show ?thesis by (simp add: Filter_init_def)
next
  case (Some b)
  then have v: "bloom_valid b" by (simp add: bloom_init_valid)
  show ?thesis
  proof (cases src)
    case None
    with assms Some v show ?thesis by (simp add: Filter_init_def)
  next
    case s: (Some obj)
    show ?thesis
    proof (cases obj)
      case (Buffer buf)
      with assms Some s have
        c: "sint (word_of_nat (length buf) :: c_int) = int (bytes b)" and
        f: "f = b\<lparr>bf := take (bytes b) buf\<rparr>"
        by (auto simp add: Filter_init_def split: if_splits)
      from sint_word_of_nat_eq(1) [OF c] have "length (take (bytes b) buf) = bytes b"
        by simp
      with v f show ?thesis by (simp add: bloom_valid_def split: double.splits)
    qed (use assms Some s in \<open>simp_all add: Filter_init_def\<close>)
  qed
qed

lemma Filter_init_Inr_bloom_init:
  assumes "Filter_init n e src = Inr f"
  obtains b where "bloom_init (entries f) (error f) = Some b" "bytes b = bytes f"
    "b\<lparr>bf := bf f\<rparr> = f"
proof (cases "bloom_init n e")
  case None
  with assms show ?thesis by (simp add: Filter_init_def)
next
  case (Some b)
  from bloom_init_valid [OF Some] have ne: "entries b = n" "error b = e" by simp_all
  from assms Some have "f = b \<or> (\<exists>buf. f = b\<lparr>bf := buf\<rparr>)"
    by (auto simp add: Filter_init_def split: option.splits py_object.splits if_splits)
  then have "entries f = n" "error f = e" "bytes b = bytes f" "b\<lparr>bf := bf f\<rparr> = f"
    using ne by auto
  with Some that show ?thesis by simp
qed

lemma Filter_init_Buffer:
  "Filter_init n e (Some (Buffer buf)) =
     (case bloom_init n e of
        None \<Rightarrow> Inl InvalidParameters
      | Some b \<Rightarrow>
          if sint (word_of_nat (length buf) :: c_int) \<noteq> int (bytes b) then Inl LengthMismatch
          else Inr (b\<lparr>bf := take (bytes b) buf\<rparr>))"
  by (simp add: Filter_init_def split: option.splits)

lemma Filter_init_Buffer_exact:
  assumes "int (length buf) < 2 ^ 31"
  shows "Filter_init n e (Some (Buffer buf)) =
     (case bloom_init n e of
        None \<Rightarrow> Inl InvalidParameters
      | Some b \<Rightarrow> if bytes b \<noteq> length buf then Inl LengthMismatch
                  else Inr (b\<lparr>bf := buf\<rparr>))"
proof (cases "bloom_init n e")
  case None
  then show ?thesis by (simp add: Filter_init_Buffer)
next
  case (Some b)
  have "sint (word_of_nat (length buf) :: c_int) = int (length buf)"
    using assms by (rule sint_word_of_nat_small)
  with Some show ?thesis by (simp add: Filter_init_Buffer)
qed

lemma load_dump:
  assumes "dump fdiv crc32 f = Some buf" and "bytes f = length (bf f)" and "bf f \<noteq> []"
  obtains q where "double_to_uint16 (fdiv (Finite 1) (error f)) = Some q"
    "load fdiv crc32 buf
       = Filter_init (entries f) (fdiv (Finite 1) (uint16_to_double q)) (Some (Buffer (bf f)))"
proof -
  from assms(1,2) obtain q where
    q: "double_to_uint16 (fdiv (Finite 1) (error f)) = Some q" and
    b: "buf = htons (compute_checksum crc32 (bf f) (length (bf f))) @ htons q
           @ htonl (entries f) @ bf f"
    by (rule dump_Some)
  note h = header_fields [OF b]
  from assms(3) have "9 \<le> length buf" by (cases "bf f") (simp_all add: h(1))
  from load_unfold [OF this, of fdiv crc32]
  have "load fdiv crc32 buf
       = Filter_init (entries f) (fdiv (Finite 1) (uint16_to_double q)) (Some (Buffer (bf f)))"
    by (simp add: h instantiate_filter_eq)
  with q show ?thesis by (rule that)
qed

lemma valid_lengths:
  assumes "bloom_valid f"
  shows "bytes f = length (bf f)" and "bf f \<noteq> []"
proof -
  from assms have a: "1 \<le> bits f" "bytes f = (bits f + 7) div 8" "length (bf f) = bytes f"
    by (simp_all add: bloom_valid_def)
  then show "bytes f = length (bf f)" by simp
  from a(1,2) have "1 \<le> bytes f" by linarith
  with a(3) show "bf f \<noteq> []" by auto
qed

lemma Filter_init_length_mismatch:
  assumes "bloom_init n e = Some b" and "length buf \<noteq> bytes b" and "int (length buf) < 2 ^ 31"
  shows "Filter_init n e (Some (Buffer buf)) = Inl LengthMismatch"
  using assms by (simp add: Filter_init_Buffer sint_word_of_nat_small)

lemma length_zeros: "length (zeros n) = n"
  by (simp add: zeros_def)

lemma take_zeros: "take k (zeros n) = zeros (min k n)"
  by (simp add: zeros_def)

lemma zeros_1: "zeros (Suc 0) = [0]"
  by (simp add: zeros_def)

lemma sint_wrapped_length: "sint (word_of_nat 4294967297 :: c_int) = 1"
  by simp

lemma Filter_init_errors:
  "Filter_init n e src = Inl err \<Longrightarrow>
     err = InvalidParameters \<or> err = UnsupportedBuffer \<or> err = BufferUnavailable
     \<or> err = LengthMismatch"
  by (auto simp add: Filter_init_def split: option.splits py_object.splits if_splits)

lemma Filter_init_Buffer_errors:
  "Filter_init n e (Some (Buffer buf)) = Inl err \<Longrightarrow>
     err = InvalidParameters \<or> err = LengthMismatch"
  by (auto simp add: Filter_init_Buffer split: option.splits if_splits)

lemma Filter_init_Buffer_bf:
  "Filter_init n e (Some (Buffer buf)) = Inr f \<Longrightarrow> bf f = take (bytes f) buf"
  by (auto simp add: Filter_init_Buffer split: option.splits if_splits)

lemma load_cases:
  "load fdiv crc32 buffer = Inl TruncatedInput
   \<or> load fdiv crc32 buffer = Inl ChecksumMismatch
   \<or> load fdiv crc32 buffer
       = Filter_init (ntohl (drop 4 buffer))
           (fdiv (Finite 1) (uint16_to_double (ntohs (drop 2 buffer))))
           (Some (Buffer (drop 8 buffer)))"
proof (cases "length buffer < 9")
  case True
  then show ?thesis by (simp add: load_truncated_length)
next
  case False
  then have "9 \<le> length buffer" by simp
  from load_unfold [OF this, of fdiv crc32] show ?thesis
    by (simp add: instantiate_filter_eq)
qed

subsection \<open>Setting and testing bits\<close>

lemma length_set_bit_at: "length (set_bit_at p bs) = length bs"
  by (simp add: set_bit_at_def)

lemma test_bit_at_set_same:
  "p div 8 < length bs \<Longrightarrow> test_bit_at (set_bit_at p bs) p"
  by (simp add: set_bit_at_def test_bit_at_def bit_simps)

lemma test_bit_at_set_other:
  assumes "test_bit_at bs q" and "q div 8 < length bs"
  shows "test_bit_at (set_bit_at p bs) q"
proof (cases "p div 8 = q div 8")
  case True
  with assms show ?thesis
    by (simp add: set_bit_at_def test_bit_at_def bit_or_iff)
next
  case False
  with assms show ?thesis
    by (simp add: set_bit_at_def test_bit_at_def)
qed

lemma length_fold_set_bit_at: "length (fold set_bit_at ps bs) = length bs"
  by (induction ps arbitrary: bs) (simp_all add: length_set_bit_at)

lemma test_bit_at_fold_kept:
  assumes "test_bit_at bs q" and "q div 8 < length bs"
  shows "test_bit_at (fold set_bit_at ps bs) q"
  using assms
proof (induction ps arbitrary: bs)
  case Nil
  then show ?case by simp
next
  case (Cons p ps)
  from Cons.prems have "test_bit_at (set_bit_at p bs) q" "q div 8 < length (set_bit_at p bs)"
    by (simp_all add: test_bit_at_set_other length_set_bit_at)
  then show ?case by (simp add: Cons.IH)
qed

lemma test_bit_at_fold_set:
  assumes "q \<in> set ps" and "q div 8 < length bs"
  shows "test_bit_at (fold set_bit_at ps bs) q"
  using assms
proof (induction ps arbitrary: bs)
  case Nil
  then show ?case by simp
next
  case (Cons p ps)
  show ?case
  proof (cases "q = p")
    case True
    with Cons.prems have "test_bit_at (set_bit_at p bs) q" "q div 8 < length (set_bit_at p bs)"
      by (simp_all add: test_bit_at_set_same length_set_bit_at)
    then show ?thesis by (simp add: test_bit_at_fold_kept)
  next
    case False
    with Cons.prems have "q \<in> set ps" "q div 8 < length (set_bit_at p bs)"
      by (simp_all add: length_set_bit_at)
    then show ?thesis by (simp add: Cons.IH)
  qed
qed

lemma probe_positions_less:
  assumes "1 \<le> bits b" and "p \<in> set (probe_positions h1 h2 b member)"
  shows "p < bits b"
  using assms by (auto simp add: probe_positions_def)

lemma valid_bit_in_range:
  assumes "bloom_valid b" and "p < bits b"
  shows "p div 8 < length (bf b)"
proof -
  from assms(1) have "length (bf b) = (bits b + 7) div 8" by (simp add: bloom_valid_def)
  with assms(2) show ?thesis by auto
qed

lemma bloom_add_fields:
  "entries (bloom_add h1 h2 b m) = entries b" "error (bloom_add h1 h2 b m) = error b"
  "bits (bloom_add h1 h2 b m) = bits b" "bytes (bloom_add h1 h2 b m) = bytes b"
  "hashes (bloom_add h1 h2 b m) = hashes b"
  "length (bf (bloom_add h1 h2 b m)) = length (bf b)"
  by (simp_all add: bloom_add_def length_fold_set_bit_at)

lemma bloom_add_valid: "bloom_valid b \<Longrightarrow> bloom_valid (bloom_add h1 h2 b m)"
  by (simp add: bloom_valid_def bloom_add_fields split: double.splits)

lemma probe_positions_bloom_add:
  "probe_positions h1 h2 (bloom_add h1 h2 b m) x = probe_positions h1 h2 b x"
  by (simp add: probe_positions_def bloom_add_fields)

lemma bloom_add_keeps_bit:
  assumes "bloom_valid b" and "p < bits b" and "test_bit_at (bf b) p"
  shows "test_bit_at (bf (bloom_add h1 h2 b m)) p"
  using assms by (simp add: bloom_add_def test_bit_at_fold_kept valid_bit_in_range)

lemma bloom_check_after_add:
  assumes "bloom_valid b"
  shows "bloom_check h1 h2 (bloom_add h1 h2 b x) x"
proof -
  from assms have pos: "1 \<le> bits b" by (simp add: bloom_valid_def)
  have "test_bit_at (bf (bloom_add h1 h2 b x)) p"
    if "p \<in> set (probe_positions h1 h2 b x)" for p
  proof -
    from probe_positions_less [OF pos that] have "p div 8 < length (bf b)"
      by (rule valid_bit_in_range [OF assms])
    with that show ?thesis by (simp add: bloom_add_def test_bit_at_fold_set)
  qed
  then show ?thesis
    by (simp add: bloom_check_def probe_positions_bloom_add list_all_iff)
qed

lemma bloom_check_kept:
  assumes "bloom_valid b" and "bloom_check h1 h2 b x"
  shows "bloom_check h1 h2 (bloom_add h1 h2 b y) x"
proof -
  from assms(1) have pos: "1 \<le> bits b" by (simp add: bloom_valid_def)
  have "test_bit_at (bf (bloom_add h1 h2 b y)) p"
    if "p \<in> set (probe_positions h1 h2 b x)" for p
  proof -
    from assms(2) that have "test_bit_at (bf b) p"
      by (simp add: bloom_check_def list_all_iff)
    with probe_positions_less [OF pos that] show ?thesis
      by (simp add: bloom_add_keeps_bit [OF assms(1)])
  qed
  then show ?thesis
    by (simp add: bloom_check_def probe_positions_bloom_add list_all_iff)
qed

lemma Filter_add_eq: "Filter_add h1 h2 = bloom_add h1 h2"
  by (intro ext) (simp add: Filter_add_def)

lemma foldl_add_valid:
  "bloom_valid b \<Longrightarrow> bloom_valid (foldl (bloom_add h1 h2) b ys)"
  by (induction ys arbitrary: b) (simp_all add: bloom_add_valid)

lemma foldl_add_bits:
  "bits (foldl (bloom_add h1 h2) b ys) = bits b"
  by (induction ys arbitrary: b) (simp_all add: bloom_add_fields)

lemma foldl_add_check:
  "bloom_valid b \<Longrightarrow> bloom_check h1 h2 b x
     \<Longrightarrow> bloom_check h1 h2 (foldl (bloom_add h1 h2) b ys) x"
  by (induction ys arbitrary: b) (simp_all add: bloom_add_valid bloom_check_kept)

lemma foldl_add_keeps_bit:
  "bloom_valid b \<Longrightarrow> p < bits b \<Longrightarrow> test_bit_at (bf b) p
     \<Longrightarrow> test_bit_at (bf (foldl (bloom_add h1 h2) b ys)) p"
  by (induction ys arbitrary: b)
     (simp_all add: bloom_add_valid bloom_add_fields bloom_add_keeps_bit)

lemma example_filter_valid: "bloom_valid example_filter"
  using bloom_init_valid [OF bloom_init_example] by simp

subsection \<open>The CRC shift as a linear map\<close>

lemma crc32_shift_xor: "crc32_shift (a XOR b) = crc32_shift a XOR crc32_shift b"
  by (simp add: crc32_shift_def bit_xor_iff ac_simps)

lemma crc32_shift_funpow_xor:
  "(crc32_shift ^^ n) (a XOR b) = (crc32_shift ^^ n) a XOR (crc32_shift ^^ n) b"
  by (induction n) (simp_all add: crc32_shift_xor)

lemma linear_zero:
  assumes "\<And>a b. L (a XOR b) = L a XOR L b"
  shows "L 0 = (0 :: uint32_t)"
proof -
  have "L (0 XOR 0) = L 0 XOR L 0" by (rule assms)
  then show ?thesis by simp
qed

lemma push_take_step:
  "push_bit k (take_bit (Suc m) (c :: uint32_t))
     = (if bit c 0 then 2 ^ k else 0) XOR push_bit (Suc k) (take_bit m (drop_bit 1 c))"
proof (rule bit_word_eqI)
  fix n assume n: "n < LENGTH(32)"
  consider "n < k" | "n = k" | "k < n" by linarith
  then show "bit (push_bit k (take_bit (Suc m) c)) n
    = bit ((if bit c 0 then 2 ^ k else 0) XOR push_bit (Suc k) (take_bit m (drop_bit 1 c))) n"
  proof cases
    case 1
    then show ?thesis by (auto simp add: bit_simps simp del: push_bit_Suc)
  next
    case 2
    then show ?thesis using n by (auto simp add: bit_simps simp del: push_bit_Suc)
  next
    case 3
    then obtain d where "n = Suc (k + d)" using less_imp_Suc_add by blast
    then show ?thesis using n by (auto simp add: bit_simps simp del: push_bit_Suc)
  qed
qed

lemma lin_apply_images:
  assumes lin: "\<And>a b. L (a XOR b) = L a XOR L b"
  shows "lin_apply (map (\<lambda>j. L (2 ^ (k + j))) [0..<m]) c = L (push_bit k (take_bit m c))"
proof (induction m arbitrary: k c)
  case 0
  then show ?case by (simp add: linear_zero [of L, OF lin])
next
  case (Suc m)
  have u: "map (\<lambda>j. L (2 ^ (k + j))) [0..<Suc m]
             = L (2 ^ k) # map (\<lambda>j. L (2 ^ (Suc k + j))) [0..<m]"
    by (simp add: upt_conv_Cons map_Suc_upt [symmetric] o_def del: upt_Suc)
  note IH = Suc.IH [of "Suc k" "drop_bit 1 c"]
  show ?case
  proof (cases "bit c 0")
    case True
    then show ?thesis
      unfolding u push_take_step lin by (simp only: lin_apply.simps IH if_True)
  next
    case False
    then show ?thesis
      unfolding u push_take_step lin
      by (simp only: lin_apply.simps IH if_False linear_zero [of L, OF lin] xor.left_neutral)
  qed
qed

lemma lin_apply_basis:
  assumes "\<And>a b. L (a XOR b) = L a XOR L b"
  shows "lin_apply (basis_images L) c = L c"
  using lin_apply_images [of L 0 32 c, OF assms]
  by (simp add: basis_images_def take_bit_word_eq_self)

lemma crc32_orbit_numeral:
  "crc32_orbit (numeral n) x = x # crc32_orbit (pred_numeral n) (crc32_shift x)"
  by (simp add: numeral_eq_Suc)

lemma length_crc32_orbit: "length (crc32_orbit n x) = n"
  by (induction n arbitrary: x) simp_all

lemma nth_crc32_orbit: "i < n \<Longrightarrow> crc32_orbit n x ! i = (crc32_shift ^^ i) x"
proof (induction n arbitrary: x i)
  case 0
  then show ?case by simp
next
  case (Suc n)
  then show ?case by (cases i) (simp_all add: funpow_swap1)
qed

lemma crc32_shift_power_of_two:
  assumes "i < 31"
  shows "crc32_shift (2 ^ (31 - i)) = 2 ^ (31 - Suc i)"
proof -
  from assms obtain d where d: "31 - i = Suc d" by (cases "31 - i") simp_all
  have "\<not> bit (2 ^ Suc d :: uint32_t) 0" by (simp add: bit_0)
  moreover have "drop_bit 1 (2 ^ Suc d :: uint32_t) = 2 ^ d"
  proof -
    from d have "Suc d < 32" by linarith
    then show ?thesis by (simp only: drop_bit_exp_eq) simp
  qed
  moreover from d have "31 - Suc i = d" by simp
  ultimately show ?thesis by (simp add: crc32_shift_def d)
qed

lemma crc32_unit_orbit: "i \<le> 31 \<Longrightarrow> (crc32_shift ^^ i) 0x80000000 = 2 ^ (31 - i)"
proof (induction i)
  case 0
  then show ?case by simp
next
  case (Suc i)
  then have "(crc32_shift ^^ i) 0x80000000 = 2 ^ (31 - i)" and "i < 31" by simp_all
  then show ?case by (simp add: crc32_shift_power_of_two)
qed

lemma basis_images_orbit:
  "basis_images (crc32_shift ^^ m) = rev (crc32_orbit 32 (crc32_power m))"
proof (rule nth_equalityI)
  show "length (basis_images (crc32_shift ^^ m)) = length (rev (crc32_orbit 32 (crc32_power m)))"
    by (simp add: basis_images_def length_crc32_orbit)
next
  fix j assume "j < length (basis_images (crc32_shift ^^ m))"
  then have j: "j < 32" by (simp add: basis_images_def)
  then have "2 ^ j = (crc32_shift ^^ (31 - j)) 0x80000000"
    using crc32_unit_orbit [of "31 - j"] by simp
  then have "(crc32_shift ^^ m) (2 ^ j) = (crc32_shift ^^ (31 - j)) (crc32_power m)"
    by (simp add: crc32_power_def funpow_add [symmetric, unfolded o_def, THEN fun_cong] add.commute)
  moreover have "rev (crc32_orbit 32 (crc32_power m)) ! j = (crc32_shift ^^ (31 - j)) (crc32_power m)"
    using j by (simp add: rev_nth length_crc32_orbit nth_crc32_orbit)
  moreover have "basis_images (crc32_shift ^^ m) ! j = (crc32_shift ^^ m) (2 ^ j)"
    using j by (simp add: basis_images_def del: upt_Suc)
  ultimately show "basis_images (crc32_shift ^^ m) ! j = rev (crc32_orbit 32 (crc32_power m)) ! j"
    by simp
qed

lemma crc32_funpow_as_mul: "(crc32_shift ^^ m) c = crc32_mul (crc32_power m) c"
  using lin_apply_basis [of "crc32_shift ^^ m" c, OF crc32_shift_funpow_xor]
  by (simp add: crc32_mul_def basis_images_orbit)

lemma crc32_power_add: "crc32_power (m + n) = crc32_mul (crc32_power m) (crc32_power n)"
proof -
  have "crc32_power (m + n) = (crc32_shift ^^ m) (crc32_power n)"
    by (simp add: crc32_power_def funpow_add)
  also have "\<dots> = crc32_mul (crc32_power m) (crc32_power n)"
    by (rule crc32_funpow_as_mul)
  finally show ?thesis .
qed

lemma crc32_power_double:
  assumes "crc32_power m = X"
  shows "crc32_power (2 * m) = crc32_mul X X"
  using crc32_power_add [of m m] by (simp only: assms mult_2)

lemma crc32_power_double_succ:
  assumes "crc32_power m = X"
  shows "crc32_power (2 * m + 1) = crc32_shift (crc32_mul X X)"
proof -
  have "crc32_power (2 * m + 1) = crc32_shift (crc32_power (m + m))"
    by (simp add: crc32_power_def mult_2)
  also have "crc32_power (m + m) = crc32_mul X X"
    using crc32_power_add [of m m] by (simp only: assms)
  finally show ?thesis .
qed

lemma crc32_power_1: "crc32_power 1 = 0x40000000"
  by (simp add: crc32_power_def crc32_shift_def)

lemma crc32_power_2: "crc32_power 2 = 0x20000000"
  using crc32_power_double [OF crc32_power_1] by (simp add: crc32_mul_def crc32_orbit_numeral crc32_shift_def)

lemma crc32_power_5: "crc32_power 5 = 0x04000000"
  using crc32_power_double_succ [OF crc32_power_2] by (simp add: crc32_mul_def crc32_orbit_numeral crc32_shift_def)

lemma crc32_power_10: "crc32_power 10 = 0x00200000"
  using crc32_power_double [OF crc32_power_5] by (simp add: crc32_mul_def crc32_orbit_numeral crc32_shift_def)

lemma crc32_power_21: "crc32_power 21 = 0x00000400"
  using crc32_power_double_succ [OF crc32_power_10] by (simp add: crc32_mul_def crc32_orbit_numeral crc32_shift_def)

lemma crc32_power_42: "crc32_power 42 = 0x958424A2"
  using crc32_power_double [OF crc32_power_21] by (simp add: crc32_mul_def crc32_orbit_numeral crc32_shift_def)

lemma crc32_power_84: "crc32_power 84 = 0x33EF4E67"
  using crc32_power_double [OF crc32_power_42] by (simp add: crc32_mul_def crc32_orbit_numeral crc32_shift_def)

lemma crc32_power_168: "crc32_power 168 = 0xAE6BE681"
  using crc32_power_double [OF crc32_power_84] by (simp add: crc32_mul_def crc32_orbit_numeral crc32_shift_def)

lemma crc32_power_336: "crc32_power 336 = 0x46C47EF1"
  using crc32_power_double [OF crc32_power_168] by (simp add: crc32_mul_def crc32_orbit_numeral crc32_shift_def)

lemma crc32_power_672: "crc32_power 672 = 0xE3AB4F2A"
  using crc32_power_double [OF crc32_power_336] by (simp add: crc32_mul_def crc32_orbit_numeral crc32_shift_def)

lemma crc32_power_1344: "crc32_power 1344 = 0xE172334D"
  using crc32_power_double [OF crc32_power_672] by (simp add: crc32_mul_def crc32_orbit_numeral crc32_shift_def)

lemma crc32_power_2688: "crc32_power 2688 = 0x6D17BCF2"
  using crc32_power_double [OF crc32_power_1344] by (simp add: crc32_mul_def crc32_orbit_numeral crc32_shift_def)

lemma crc32_power_5376: "crc32_power 5376 = 0x9A9324A4"
  using crc32_power_double [OF crc32_power_2688] by (simp add: crc32_mul_def crc32_orbit_numeral crc32_shift_def)

lemma crc32_power_10752: "crc32_power 10752 = 0x56C3CB9C"
  using crc32_power_double [OF crc32_power_5376] by (simp add: crc32_mul_def crc32_orbit_numeral crc32_shift_def)

lemma crc32_power_21504: "crc32_power 21504 = 0x9A48A5C8"
  using crc32_power_double [OF crc32_power_10752] by (simp add: crc32_mul_def crc32_orbit_numeral crc32_shift_def)

lemma crc32_power_43008: "crc32_power 43008 = 0xF27886E9"
  using crc32_power_double [OF crc32_power_21504] by (simp add: crc32_mul_def crc32_orbit_numeral crc32_shift_def)

lemma crc32_power_86016: "crc32_power 86016 = 0x8AD67562"
  using crc32_power_double [OF crc32_power_43008] by (simp add: crc32_mul_def crc32_orbit_numeral crc32_shift_def)

lemma crc32_power_172032: "crc32_power 172032 = 0x0F6B1269"
  using crc32_power_double [OF crc32_power_86016] by (simp add: crc32_mul_def crc32_orbit_numeral crc32_shift_def)

lemma crc32_power_3: "crc32_power 3 = 0x10000000"
  using crc32_power_double_succ [OF crc32_power_1] by (simp add: crc32_mul_def crc32_orbit_numeral crc32_shift_def)

lemma crc32_power_7: "crc32_power 7 = 0x01000000"
  using crc32_power_double_succ [OF crc32_power_3] by (simp add: crc32_mul_def crc32_orbit_numeral crc32_shift_def)

lemma crc32_power_15: "crc32_power 15 = 0x00010000"
  using crc32_power_double_succ [OF crc32_power_7] by (simp add: crc32_mul_def crc32_orbit_numeral crc32_shift_def)

lemma crc32_power_30: "crc32_power 30 = 0x00000002"
  using crc32_power_double [OF crc32_power_15] by (simp add: crc32_mul_def crc32_orbit_numeral crc32_shift_def)

lemma crc32_power_60: "crc32_power 60 = 0xC5B428EF"
  using crc32_power_double [OF crc32_power_30] by (simp add: crc32_mul_def crc32_orbit_numeral crc32_shift_def)

lemma crc32_power_121: "crc32_power 121 = 0x3063B7F0"
  using crc32_power_double_succ [OF crc32_power_60] by (simp add: crc32_mul_def crc32_orbit_numeral crc32_shift_def)

lemma crc32_power_242: "crc32_power 242 = 0xBCE956AA"
  using crc32_power_double [OF crc32_power_121] by (simp add: crc32_mul_def crc32_orbit_numeral crc32_shift_def)

lemma crc32_power_484: "crc32_power 484 = 0xC5569320"
  using crc32_power_double [OF crc32_power_242] by (simp add: crc32_mul_def crc32_orbit_numeral crc32_shift_def)

lemma crc32_power_969: "crc32_power 969 = 0x2BB43C8B"
  using crc32_power_double_succ [OF crc32_power_484] by (simp add: crc32_mul_def crc32_orbit_numeral crc32_shift_def)

lemma crc32_power_1939: "crc32_power 1939 = 0x12C4C904"
  using crc32_power_double_succ [OF crc32_power_969] by (simp add: crc32_mul_def crc32_orbit_numeral crc32_shift_def)

lemma crc32_power_3878: "crc32_power 3878 = 0x7D59563F"
  using crc32_power_double [OF crc32_power_1939] by (simp add: crc32_mul_def crc32_orbit_numeral crc32_shift_def)

lemma crc32_power_7756: "crc32_power 7756 = 0x8DDEB17B"
  using crc32_power_double [OF crc32_power_3878] by (simp add: crc32_mul_def crc32_orbit_numeral crc32_shift_def)

lemma crc32_power_15512: "crc32_power 15512 = 0x08C73F7D"
  using crc32_power_double [OF crc32_power_7756] by (simp add: crc32_mul_def crc32_orbit_numeral crc32_shift_def)

lemma crc32_power_31024: "crc32_power 31024 = 0x66050FEF"
  using crc32_power_double [OF crc32_power_15512] by (simp add: crc32_mul_def crc32_orbit_numeral crc32_shift_def)

lemma crc32_power_62048: "crc32_power 62048 = 0x897DA1F8"
  using crc32_power_double [OF crc32_power_31024] by (simp add: crc32_mul_def crc32_orbit_numeral crc32_shift_def)

lemma crc32_power_124096: "crc32_power 124096 = 0x68612DBF"
  using crc32_power_double [OF crc32_power_62048] by (simp add: crc32_mul_def crc32_orbit_numeral crc32_shift_def)

lemma crc32_power_248192: "crc32_power 248192 = 0x741E196C"
  using crc32_power_double [OF crc32_power_124096] by (simp add: crc32_mul_def crc32_orbit_numeral crc32_shift_def)

subsection \<open>The checksum of a payload with one bit flipped\<close>

lemma length_flip_bit_at: "length (flip_bit_at i bs) = length bs"
  by (simp add: flip_bit_at_def)

lemma flip_bit_at_Cons:
  "flip_bit_at i (b # bs) = (if i < 8 then (b XOR 2 ^ i) # bs else b # flip_bit_at (i - 8) bs)"
proof (cases "i < 8")
  case True
  then show ?thesis by (simp add: flip_bit_at_def)
next
  case False
  then obtain d where d: "i = 8 + d" using le_Suc_ex [of 8 i] by auto
  have "(8 + d) div 8 = Suc (d div 8)" by simp
  then show ?thesis
    using False by (simp add: flip_bit_at_def d)
qed

lemma flip_bit_at_append:
  "flip_bit_at (8 * length xs + i) (xs @ ys) = xs @ flip_bit_at i ys"
  by (induction xs) (simp_all add: flip_bit_at_Cons)

lemma crc32_byte_xor:
  "crc32_byte (x XOR e) b = crc32_byte x b XOR (crc32_shift ^^ 8) e"
  by (simp add: crc32_byte_def crc32_shift_funpow_xor ac_simps)

lemma foldl_crc32_byte_xor:
  "foldl crc32_byte (x XOR e) p = foldl crc32_byte x p XOR (crc32_shift ^^ (8 * length p)) e"
proof (induction p arbitrary: x e)
  case Nil
  then show ?case by simp
next
  case (Cons b p)
  have "(crc32_shift ^^ (8 * length p)) ((crc32_shift ^^ 8) e)
          = (crc32_shift ^^ (8 * length (b # p))) e"
    by (simp add: funpow_add [symmetric, unfolded o_def, THEN fun_cong] add.commute)
  then show ?case by (simp add: crc32_byte_xor Cons.IH)
qed

lemma ucast_bit_of_byte: "i < 8 \<Longrightarrow> (ucast (2 ^ i :: byte) :: uint32_t) = 2 ^ i"
  by (rule bit_word_eqI) (auto simp add: bit_simps)

lemma crc32_byte_flip:
  assumes "i < 8"
  shows "crc32_byte c (b XOR 2 ^ i) = crc32_byte c b XOR (crc32_shift ^^ 8) (2 ^ i)"
  using assms
  by (simp add: crc32_byte_def unsigned_xor_eq ucast_bit_of_byte crc32_shift_funpow_xor ac_simps)

lemma foldl_crc32_byte_flip:
  assumes "i < 8 * length p"
  shows "foldl crc32_byte c (flip_bit_at i p)
           = foldl crc32_byte c p XOR (crc32_shift ^^ (8 * (length p - i div 8))) (2 ^ (i mod 8))"
  using assms
proof (induction p arbitrary: c i)
  case Nil
  then show ?case by simp
next
  case (Cons b p)
  show ?case
  proof (cases "i < 8")
    case True
    have "(crc32_shift ^^ (8 * length p)) ((crc32_shift ^^ 8) (2 ^ i))
          = (crc32_shift ^^ (8 * length (b # p))) (2 ^ i)"
      by (simp add: funpow_add [symmetric, unfolded o_def, THEN fun_cong] add.commute)
    with True show ?thesis
      by (simp add: flip_bit_at_Cons crc32_byte_flip foldl_crc32_byte_xor)
  next
    case False
    then obtain d where d: "i = 8 + d" using le_Suc_ex [of 8 i] by auto
    with Cons.prems have "d < 8 * length p" by simp
    from Cons.IH [OF this, of "crc32_byte c b"] False d show ?thesis
      by (simp add: flip_bit_at_Cons)
  qed
qed

lemma crc32_standard_flip:
  assumes "i < 8 * length p"
  shows "crc32_standard c p XOR crc32_standard c (flip_bit_at i p)
           = (crc32_shift ^^ (8 * (length p - i div 8))) (2 ^ (i mod 8))"
  by (simp add: crc32_standard_def foldl_crc32_byte_flip [OF assms] ac_simps)

lemma crc32_shift_172032_bit_6: "(crc32_shift ^^ 172032) 0x40 = 0x9F719F71"
  by (simp add: crc32_funpow_as_mul crc32_power_172032 crc32_mul_def crc32_orbit_numeral
      crc32_shift_def)

lemma xor_eq_zero_iff: "(a :: 'a::len word) XOR b = 0 \<longleftrightarrow> a = b"
proof
  assume "a XOR b = 0"
  then have "(a XOR b) XOR b = b" by simp
  then show "a = b" by (simp add: xor.assoc)
qed simp

lemma fold16_xor:
  fixes a b :: uint32_t
  shows "(ucast ((a AND 0xFFFF) XOR drop_bit 16 a) :: uint16_t)
           XOR ucast ((b AND 0xFFFF) XOR drop_bit 16 b)
         = ucast (((a XOR b) AND 0xFFFF) XOR drop_bit 16 (a XOR b))"
  by (simp add: unsigned_xor_eq bit.conj_xor_distrib2 ac_simps)

lemma fold16_zero_iff:
  fixes d :: uint32_t
  shows "(ucast ((d AND 0xFFFF) XOR drop_bit 16 d) :: uint16_t) = 0
         \<longleftrightarrow> d AND 0xFFFF = drop_bit 16 d"
proof
  assume "d AND 0xFFFF = drop_bit 16 d"
  then show "(ucast ((d AND 0xFFFF) XOR drop_bit 16 d) :: uint16_t) = 0" by simp
next
  let ?v = "(d AND 0xFFFF) XOR drop_bit 16 d"
  assume z: "(ucast ?v :: uint16_t) = 0"
  have m: "(0xFFFF :: uint32_t) = mask 16" by (simp add: mask_eq_exp_minus_1)
  have "?v = 0"
  proof (rule bit_word_eqI)
    fix n assume "n < LENGTH(32)"
    show "bit ?v n = bit (0 :: uint32_t) n"
    proof (cases "n < 16")
      case True
      have "bit (ucast ?v :: uint16_t) n = bit ?v n"
        using True by (simp only: bit_ucast_iff) simp
      with z show ?thesis by simp
    next
      case False
      then have "\<not> bit (d AND mask 16) n" by (simp add: bit_simps)
      moreover from False have "\<not> bit (drop_bit 16 d) n"
        by (auto simp add: bit_simps dest: bit_imp_le_length)
      ultimately show ?thesis by (simp add: m bit_xor_iff)
    qed
  qed
  then show "d AND 0xFFFF = drop_bit 16 d" by (simp only: xor_eq_zero_iff)
qed

lemma compute_checksum_eq_iff:
  "compute_checksum crc32 p (length p) = compute_checksum crc32 p' (length p')
   \<longleftrightarrow> (crc32 0 p XOR crc32 0 p') AND 0xFFFF = drop_bit 16 (crc32 0 p XOR crc32 0 p')"
proof -
  let ?F = "\<lambda>x :: uint32_t. (ucast ((x AND 0xFFFF) XOR drop_bit 16 x) :: uint16_t)"
  have "?F (crc32 0 p) = ?F (crc32 0 p') \<longleftrightarrow> ?F (crc32 0 p) XOR ?F (crc32 0 p') = 0"
    by (rule xor_eq_zero_iff [symmetric])
  also have "\<dots> \<longleftrightarrow> ?F (crc32 0 p XOR crc32 0 p') = 0" by (simp only: fold16_xor)
  also have "\<dots> \<longleftrightarrow> (crc32 0 p XOR crc32 0 p') AND 0xFFFF
                        = drop_bit 16 (crc32 0 p XOR crc32 0 p')"
    by (rule fold16_zero_iff)
  finally show ?thesis by (simp add: compute_checksum_def Let_def)
qed

lemma load_flipped_payload:
  assumes "buf = htons c @ htons r @ htonl n @ payload" and "i < 8 * length payload"
  shows "flip_bit_at (64 + i) buf = htons c @ htons r @ htonl n @ flip_bit_at i payload"
    and "load fdiv crc32 (flip_bit_at (64 + i) buf) =
      (if compute_checksum crc32 (flip_bit_at i payload) (length payload) \<noteq> c
       then Inl ChecksumMismatch
       else instantiate_filter fdiv n r (flip_bit_at i payload) (length payload))"
proof -
  define fb where "fb = flip_bit_at (64 + i) buf"
  define p' where "p' = flip_bit_at i payload"
  have "flip_bit_at (8 * length (htons c @ htons r @ htonl n) + i)
          ((htons c @ htons r @ htonl n) @ payload)
        = (htons c @ htons r @ htonl n) @ flip_bit_at i payload"
    by (rule flip_bit_at_append)
  then have f: "fb = htons c @ htons r @ htonl n @ p'"
    by (simp add: assms(1) fb_def p'_def)
  then show "flip_bit_at (64 + i) buf = htons c @ htons r @ htonl n @ flip_bit_at i payload"
    by (simp only: fb_def p'_def)
  note h = header_fields [OF f]
  have lp: "length p' = length payload" by (simp add: p'_def length_flip_bit_at)
  from assms(2) have "payload \<noteq> []" by auto
  with lp have "p' \<noteq> []" by auto
  then have "9 \<le> length fb" by (cases p') (simp_all add: h(1))
  from load_unfold [OF this, of fdiv crc32]
  have "load fdiv crc32 fb =
      (if compute_checksum crc32 p' (length p') \<noteq> c
       then Inl ChecksumMismatch
       else instantiate_filter fdiv n r p' (length p'))"
    by (simp add: h)
  then show "load fdiv crc32 (flip_bit_at (64 + i) buf) =
      (if compute_checksum crc32 (flip_bit_at i payload) (length payload) \<noteq> c
       then Inl ChecksumMismatch
       else instantiate_filter fdiv n r (flip_bit_at i payload) (length payload))"
    unfolding lp unfolding fb_def p'_def .
qed

lemma exp_Taylor_bounds:
  fixes x :: real
  assumes "0 \<le> x" and "x \<le> 1"
  shows "(\<Sum>m<n. x ^ m / fact m) \<le> exp x"
    and "exp x \<le> (\<Sum>m<n. x ^ m / fact m) + 3 * x ^ n / fact n"
proof -
  obtain t where t: "\<bar>t\<bar> \<le> \<bar>x\<bar>"
    and e: "exp x = (\<Sum>m<n. x ^ m / fact m) + (exp t / fact n) * x ^ n"
    using Maclaurin_exp_le [of x n] by blast
  have "0 \<le> (exp t / fact n) * x ^ n" using assms(1) by simp
  with e show "(\<Sum>m<n. x ^ m / fact m) \<le> exp x" by linarith
  from t assms have "t \<le> 1" by linarith
  then have "exp t \<le> exp 1" by simp
  also have "exp (1::real) \<le> 1 + 1 + 1\<^sup>2" by (rule exp_bound) simp_all
  finally have "exp t \<le> 3" by simp
  then have "(exp t / fact n) * x ^ n \<le> (3 / fact n) * x ^ n"
    using assms(1) by (intro mult_right_mono divide_right_mono) simp_all
  with e show "exp x \<le> (\<Sum>m<n. x ^ m / fact m) + 3 * x ^ n / fact n" by simp
qed

lemma ln2_lower: "693147 / 1000000 < ln (2::real)"
proof -
  have "exp (693147 / 1000000 :: real)
          \<le> (\<Sum>m<10. (693147 / 1000000) ^ m / fact m) + 3 * (693147 / 1000000) ^ 10 / fact 10"
    by (rule exp_Taylor_bounds) simp_all
  also have "\<dots> < 2"
    by (simp add: lessThan_nat_numeral lessThan_Suc fact_numeral power_divide)
  finally have "exp (693147 / 1000000 :: real) < exp (ln 2)" by simp
  then show ?thesis by (simp only: exp_less_cancel_iff)
qed

lemma ln2_upper: "ln (2::real) < 693148 / 1000000"
proof -
  have "(2::real) < (\<Sum>m<10. (693148 / 1000000) ^ m / fact m)"
    by (simp add: lessThan_nat_numeral lessThan_Suc fact_numeral power_divide)
  also have "\<dots> \<le> exp (693148 / 1000000 :: real)"
    by (rule exp_Taylor_bounds) simp_all
  finally have "exp (ln 2) < exp (693148 / 1000000 :: real)" by simp
  then show ?thesis by (simp only: exp_less_cancel_iff)
qed

lemma bit_count_172032_half: "bit_count 172032 (1/2) = 248190"
proof -
  have l: "ln (1/2 :: real) = - ln 2" by (simp add: ln_div)
  have e: "- real_of_int 172032 * ln (1/2) / (ln 2)\<^sup>2 = 172032 / ln (2::real)"
    by (simp add: l power2_eq_square)
  have p: "0 < ln (2::real)" by simp
  have "\<lceil>172032 / ln (2::real)\<rceil> = 248190"
  proof (rule ceiling_unique)
    show "real_of_int 248190 - 1 < 172032 / ln 2"
      using ln2_upper p by (simp add: field_simps)
    show "172032 / ln 2 \<le> real_of_int 248190"
      using ln2_lower p by (simp add: field_simps)
  qed
  then show ?thesis unfolding bit_count_def e by simp
qed

lemma hash_count_248190_172032: "hash_count 248190 172032 = 1"
proof -
  have "round (real 248190 / real_of_int 172032 * ln (2::real)) = 1"
    unfolding round_def
    by (rule floor_unique) (use ln2_lower ln2_upper in simp_all)
  then show ?thesis unfolding hash_count_def by simp
qed

lemma bloom_init_large: "bloom_init 172032 (Finite (1/2)) = Some large_filter"
  by (simp add: bloom_init_def bit_count_172032_half hash_count_248190_172032
      large_filter_def zeros_def Let_def)

lemma large_filter_fields:
  "bf large_filter = zeros 31024" "bytes large_filter = 31024"
  "entries large_filter = 172032" "error large_filter = Finite (1/2)"
  by (simp_all add: large_filter_def)

lemma foldl_crc32_byte_zeros:
  "foldl crc32_byte c (zeros n) = (crc32_shift ^^ (8 * n)) c"
proof (induction n arbitrary: c)
  case 0
  then show ?case by (simp add: zeros_def)
next
  case (Suc n)
  have "(crc32_shift ^^ (8 * n)) ((crc32_shift ^^ 8) c) = (crc32_shift ^^ (8 * Suc n)) c"
    by (simp add: funpow_add [symmetric, unfolded o_def, THEN fun_cong] add.commute)
  with Suc.IH [of "crc32_byte c 0"] show ?case
    by (simp add: zeros_def crc32_byte_def)
qed

lemma crc32_standard_large: "crc32_standard 0 (zeros 31024) = 0xAF0F7F5C"
proof -
  have "(crc32_shift ^^ 248192) 0xFFFFFFFF = 0x50F080A3"
    by (simp add: crc32_funpow_as_mul crc32_power_248192 crc32_mul_def crc32_orbit_numeral
        crc32_shift_def)
  then show ?thesis
    by (simp add: crc32_standard_def foldl_crc32_byte_zeros)
qed

lemma compute_checksum_large:
  "compute_checksum crc32_standard (zeros 31024) 31024 = 0xD053"
  using crc32_standard_large by (simp add: compute_checksum_def length_zeros Let_def)

lemma dump_large: "dump exact_fdiv crc32_standard large_filter = Some large_dump"
proof -
  have "double_to_uint16 (exact_fdiv (Finite 1) (error large_filter)) = Some 2"
    by (simp add: large_filter_fields exact_fdiv_def double_to_uint16_def
        truncate_toward_zero_def)
  moreover have "take (bytes large_filter) (bf large_filter) = zeros 31024"
    by (simp add: large_filter_fields length_zeros)
  ultimately show ?thesis
    by (simp add: dump_def large_dump_def Let_def large_filter_fields compute_checksum_large
        htons_def htonl_def)
qed

lemma large_dump_header:
  "large_dump = htons 0xD053 @ htons 2 @ htonl 172032 @ zeros 31024"
  by (simp add: large_dump_def htons_def htonl_def)

lemma undetected_flip_same_checksum:
  "compute_checksum crc32_standard (flip_bit_at undetected_bit (zeros 31024)) 31024 = 0xD053"
proof -
  let ?p = "zeros 31024" and ?p' = "flip_bit_at undetected_bit (zeros 31024)"
  have u: "undetected_bit < 8 * length ?p" "length ?p - undetected_bit div 8 = 21504"
    "undetected_bit mod 8 = 6"
    by (simp_all add: undetected_bit_def length_zeros)
  have "crc32_standard 0 ?p XOR crc32_standard 0 ?p' = (crc32_shift ^^ (8 * 21504)) (2 ^ 6)"
    using crc32_standard_flip [OF u(1), of 0] by (simp only: u(2,3))
  then have d: "crc32_standard 0 ?p XOR crc32_standard 0 ?p' = 0x9F719F71"
    using crc32_shift_172032_bit_6 by simp
  have "compute_checksum crc32_standard ?p (length ?p)
          = compute_checksum crc32_standard ?p' (length ?p')"
    unfolding compute_checksum_eq_iff d by simp
  then show ?thesis
    by (simp add: length_flip_bit_at length_zeros compute_checksum_large)
qed

lemma crc32_standard_flipped_large:
  "crc32_standard 0 (flip_bit_at undetected_bit (zeros 31024)) = 0x307EE02D"
proof -
  let ?p = "zeros 31024" and ?p' = "flip_bit_at undetected_bit (zeros 31024)"
  have u: "undetected_bit < 8 * length ?p" "length ?p - undetected_bit div 8 = 21504"
    "undetected_bit mod 8 = 6"
    by (simp_all add: undetected_bit_def length_zeros)
  have "crc32_standard 0 ?p XOR crc32_standard 0 ?p' = (crc32_shift ^^ (8 * 21504)) (2 ^ 6)"
    using crc32_standard_flip [OF u(1), of 0] by (simp only: u(2,3))
  then have "crc32_standard 0 ?p XOR crc32_standard 0 ?p' = 0x9F719F71"
    using crc32_shift_172032_bit_6 by simp
  then have "0xAF0F7F5C XOR crc32_standard 0 ?p' = 0x9F719F71"
    by (simp only: crc32_standard_large)
  then have "0xAF0F7F5C XOR (0xAF0F7F5C XOR crc32_standard 0 ?p') = 0xAF0F7F5C XOR 0x9F719F71"
    by (simp only:)
  then show ?thesis by (simp add: xor.assoc [symmetric])
qed

lemma crc32_standard_one_byte: "crc32_standard 0 [1] = 0xA505DF1B"
  by (simp add: crc32_standard_def crc32_byte_def crc32_shift_def funpow_numeral_unfold)

text \<open>
  The check value of the standard CRC-32: the ASCII digits \<^verbatim>\<open>123456789\<close> give
  \<^verbatim>\<open>0xCBF43926\<close>.
\<close>

lemma crc32_standard_check_value:
  "crc32_standard 0 [0x31, 0x32, 0x33, 0x34, 0x35, 0x36, 0x37, 0x38, 0x39] = 0xCBF43926"
  by (simp add: crc32_standard_def crc32_byte_def crc32_shift_def funpow_numeral_unfold)

section \<open>Truncated input\<close>


section \<open>The wire format\<close>

text \<open>
  C8. A dump is an 8-byte header followed by the raw bit array. The header holds, most
  significant byte first, the 16-bit folded checksum at offset 0, the 16-bit reciprocal
  of the error rate at offset 2 and the 32-bit cardinality at offset 4; the payload
  starts at offset 8. \<open>load\<close> reads the three fields in the same order.
\<close>

theorem dump_layout:
  assumes "dump fdiv crc32 f = Some buf" and "bytes f = length (bf f)"
  shows "\<exists>reciprocal.
           double_to_uint16 (fdiv (Finite 1) (error f)) = Some reciprocal
         \<and> length buf = 8 + length (bf f)
         \<and> take 8 buf =
             [ucast (drop_bit 8 (compute_checksum crc32 (bf f) (length (bf f)))),
              ucast (compute_checksum crc32 (bf f) (length (bf f))),
              ucast (drop_bit 8 reciprocal), ucast reciprocal,
              ucast (drop_bit 24 (entries f)), ucast (drop_bit 16 (entries f)),
              ucast (drop_bit 8 (entries f)), ucast (entries f)]
         \<and> drop 8 buf = bf f
         \<and> read_uint16 buf = (compute_checksum crc32 (bf f) (length (bf f)), drop 2 buf)
         \<and> read_uint16 (drop 2 buf) = (reciprocal, drop 4 buf)
         \<and> read_uint32 (drop 4 buf) = (entries f, drop 8 buf)
         \<and> (if bf f = [] then load fdiv crc32 buf = Inl TruncatedInput
             else load fdiv crc32 buf
                    = instantiate_filter fdiv (entries f) reciprocal (bf f) (length (bf f)))"
proof -
  from assms obtain reciprocal where
    r: "double_to_uint16 (fdiv (Finite 1) (error f)) = Some reciprocal" and
    b: "buf = htons (compute_checksum crc32 (bf f) (length (bf f))) @ htons reciprocal
           @ htonl (entries f) @ bf f"
    by (rule dump_Some)
  note h = header_fields [OF b] header_bytes [OF b]
  have l: "if bf f = [] then load fdiv crc32 buf = Inl TruncatedInput
           else load fdiv crc32 buf
                  = instantiate_filter fdiv (entries f) reciprocal (bf f) (length (bf f))"
  proof (cases "bf f = []")
    case True
    then have "length buf < 9" by (simp add: h(1))
    with True show ?thesis by (simp add: load_truncated_length)
  next
    case False
    then have "9 \<le> length buf" by (cases "bf f") (simp_all add: h(1))
    from load_unfold [OF this, of fdiv crc32] False show ?thesis by (simp add: h)
  qed
  show ?thesis
    by (intro exI [of _ reciprocal] conjI r h l)
       (simp_all add: read_uint16_def read_uint32_def h)
qed

theorem dump_layout_witness:
  "dump exact_fdiv crc32_standard example_filter = Some [0x3D, 0x8F, 0, 2, 0, 0, 0, 1, 0]
   \<and> bytes example_filter = length (bf example_filter)
   \<and> take 8 [0x3D, 0x8F, 0, 2, 0, 0, 0, 1, 0 :: byte] = [0x3D, 0x8F, 0, 2, 0, 0, 0, 1]
   \<and> drop 8 [0x3D, 0x8F, 0, 2, 0, 0, 0, 1, 0 :: byte] = bf example_filter
   \<and> load exact_fdiv crc32_standard [0x3D, 0x8F, 0, 2, 0, 0, 0, 1, 0] = Inr example_filter"
  using dump_layout [OF dump_example example_filter_fields(1)]
  by (simp add: dump_example example_filter_fields load_example)

section \<open>The checksum\<close>

text \<open>
  C4. For every payload \<open>p\<close> the checksum is the value of \<open>crc32\<close>, started at 0, over
  \<open>p\<close>, folded to 16 bits as \<open>(crc32 & 0xFFFF) ^ (crc32 >> 16)\<close>. \<open>dump\<close> stores the
  checksum of the bit array alone in the first two bytes, and \<open>load\<close> compares that
  field with the checksum of the bytes after the header alone.
\<close>

theorem checksum_is_folded_crc32:
  "compute_checksum crc32 p (length p)
     = ucast ((crc32 0 p AND 0xFFFF) XOR drop_bit 16 (crc32 0 p))
   \<and> (\<forall>f buf. dump fdiv crc32 f = Some buf \<and> bytes f = length (bf f) \<longrightarrow>
          ntohs buf = compute_checksum crc32 (bf f) (length (bf f)) \<and> drop 8 buf = bf f)
   \<and> (\<forall>buffer. 9 \<le> length buffer \<longrightarrow>
          (load fdiv crc32 buffer = Inl ChecksumMismatch
             \<longleftrightarrow> ntohs buffer \<noteq> compute_checksum crc32 (drop 8 buffer) (length (drop 8 buffer))))"
proof (intro conjI allI impI)
  show "compute_checksum crc32 p (length p)
     = ucast ((crc32 0 p AND 0xFFFF) XOR drop_bit 16 (crc32 0 p))"
    by (simp add: compute_checksum_def Let_def)
next
  fix f buf assume a: "dump fdiv crc32 f = Some buf \<and> bytes f = length (bf f)"
  then obtain r where
    "buf = htons (compute_checksum crc32 (bf f) (length (bf f))) @ htons r
           @ htonl (entries f) @ bf f"
    by (auto elim: dump_Some)
  from header_fields [OF this]
  show "ntohs buf = compute_checksum crc32 (bf f) (length (bf f))" and "drop 8 buf = bf f"
    by simp_all
next
  fix buffer :: "byte list" assume "9 \<le> length buffer"
  then show "load fdiv crc32 buffer = Inl ChecksumMismatch
             \<longleftrightarrow> ntohs buffer \<noteq> compute_checksum crc32 (drop 8 buffer) (length (drop 8 buffer))"
    by (auto simp add: load_unfold instantiate_filter_eq Filter_init_not_checksum)
qed

theorem checksum_is_folded_crc32_witness:
  "compute_checksum crc32_standard [0] (length [0 :: byte]) = 0x3D8F
   \<and> dump exact_fdiv crc32_standard example_filter = Some [0x3D, 0x8F, 0, 2, 0, 0, 0, 1, 0]
   \<and> bytes example_filter = length (bf example_filter)
   \<and> ntohs [0x3D, 0x8F, 0, 2, 0, 0, 0, 1, 0] = 0x3D8F
   \<and> 9 \<le> length [0x3D, 0x8E, 0, 2, 0, 0, 0, 1, 0 :: byte]
   \<and> load exact_fdiv crc32_standard [0x3D, 0x8E, 0, 2, 0, 0, 0, 1, 0] = Inl ChecksumMismatch
   \<and> load exact_fdiv crc32_standard [0x3D, 0x8F, 0, 2, 0, 0, 0, 1, 0] \<noteq> Inl ChecksumMismatch"
  using checksum_is_folded_crc32 [of crc32_standard "[0]" exact_fdiv]
  by (simp add: dump_example example_filter_fields compute_checksum_zero_byte ntohs_def)

section \<open>The cardinality field\<close>

text \<open>
  C10. \<open>load\<close> hands the unsigned 32-bit cardinality to the constructor as a C
  \<^verbatim>\<open>int\<close>. A field of at least \<open>2^31\<close> is read there as the negative number
  \<open>field - 2^32\<close>, construction fails, and so no loaded filter has a capacity of
  \<open>2^31\<close> or more.
\<close>

theorem load_cardinality_is_signed:
  "(9 \<le> length buffer \<and> 2 ^ 31 \<le> uint (ntohl (drop 4 buffer)) \<longrightarrow>
      sint (ntohl (drop 4 buffer)) = uint (ntohl (drop 4 buffer)) - 2 ^ 32
    \<and> sint (ntohl (drop 4 buffer)) < 0
    \<and> instantiate_filter fdiv (ntohl (drop 4 buffer)) (ntohs (drop 2 buffer))
          (drop 8 buffer) (length buffer - 8) = Inl InvalidParameters
    \<and> (load fdiv crc32 buffer = Inl ChecksumMismatch
        \<or> load fdiv crc32 buffer = Inl InvalidParameters))
   \<and> (\<forall>g. load fdiv crc32 buffer = Inr g \<longrightarrow>
          entries g = ntohl (drop 4 buffer) \<and> 1 \<le> sint (entries g)
          \<and> uint (entries g) < 2 ^ 31)"
proof (intro conjI impI allI)
  assume a: "9 \<le> length buffer \<and> 2 ^ 31 \<le> uint (ntohl (drop 4 buffer))"
  let ?c = "ntohl (drop 4 buffer)"
  from a have "\<not> uint ?c < 2 ^ 31" by simp
  then show s: "sint ?c = uint ?c - 2 ^ 32"
    by (simp add: sint32_eq [of ?c])
  have "uint ?c < 2 ^ 32" using uint_lt2p [of ?c] by simp
  with s show n: "sint ?c < 0" by simp
  then show i: "instantiate_filter fdiv ?c (ntohs (drop 2 buffer)) (drop 8 buffer)
      (length buffer - 8) = Inl InvalidParameters"
    by (simp add: instantiate_filter_eq Filter_init_negative)
  from a i show "load fdiv crc32 buffer = Inl ChecksumMismatch
        \<or> load fdiv crc32 buffer = Inl InvalidParameters"
    by (simp add: load_unfold)
next
  fix g assume g: "load fdiv crc32 buffer = Inr g"
  from load_Inr(3) [OF g] have e: "entries g = ntohl (drop 4 buffer)" "1 \<le> sint (entries g)"
    by (auto dest: Filter_init_Inr_entries)
  then show "entries g = ntohl (drop 4 buffer)" "1 \<le> sint (entries g)" by simp_all
  from e(2) show "uint (entries g) < 2 ^ 31"
    using uint_lt2p [of "entries g"] by (simp add: sint32_eq [of "entries g"] split: if_splits)
qed

theorem load_cardinality_is_signed_witness:
  "9 \<le> length [0x3D, 0x8F, 0, 2, 0x80, 0, 0, 0, 0 :: byte]
   \<and> 2 ^ 31 \<le> uint (ntohl (drop 4 [0x3D, 0x8F, 0, 2, 0x80, 0, 0, 0, 0]))
   \<and> sint (ntohl (drop 4 [0x3D, 0x8F, 0, 2, 0x80, 0, 0, 0, 0])) = - (2 ^ 31)
   \<and> load exact_fdiv crc32_standard [0x3D, 0x8F, 0, 2, 0x80, 0, 0, 0, 0]
       = Inl InvalidParameters
   \<and> load exact_fdiv crc32_standard [0x3D, 0x8F, 0, 2, 0, 0, 0, 1, 0] = Inr example_filter
   \<and> uint (entries example_filter) < 2 ^ 31"
  using load_cardinality_is_signed
          [of "[0x3D, 0x8F, 0, 2, 0x80, 0, 0, 0, 0]" exact_fdiv crc32_standard]
        load_cardinality_is_signed
          [of "[0x3D, 0x8F, 0, 2, 0, 0, 0, 1, 0]" exact_fdiv crc32_standard]
  by (simp add: ntohl_def ntohs_def load_unfold compute_checksum_zero_byte load_example)

section \<open>The error rate on the wire\<close>

text \<open>
  C3. \<open>dump\<close> writes the reciprocal \<open>1.0 / error\<close> converted to a 16-bit integer by
  truncation toward zero (the floor of a non-negative quotient, not the nearest
  integer); \<open>load\<close> gives the filter the error rate \<open>1.0\<close> divided by the 16-bit
  integer of the header.
\<close>

theorem error_rate_reciprocal_truncated:
  "(\<forall>f buf. dump fdiv crc32 f = Some buf \<and> bytes f = length (bf f) \<longrightarrow>
      (\<exists>r. fdiv (Finite 1) (error f) = Finite r \<and> - 1 < r \<and> r < 65536
            \<and> uint (ntohs (drop 2 buf)) = (if 0 \<le> r then \<lfloor>r\<rfloor> else 0)))
   \<and> (\<forall>buffer g. load fdiv crc32 buffer = Inr g \<longrightarrow>
          error g = fdiv (Finite 1) (Finite (real (unat (ntohs (drop 2 buffer))))))"
proof (intro conjI allI impI)
  fix f buf assume "dump fdiv crc32 f = Some buf \<and> bytes f = length (bf f)"
  then obtain q where
    q: "double_to_uint16 (fdiv (Finite 1) (error f)) = Some q" and
    b: "buf = htons (compute_checksum crc32 (bf f) (length (bf f))) @ htons q
           @ htonl (entries f) @ bf f"
    by (auto elim: dump_Some)
  from q obtain r where r: "fdiv (Finite 1) (error f) = Finite r"
    by (cases "fdiv (Finite 1) (error f)") (simp_all add: double_to_uint16_def)
  let ?t = "truncate_toward_zero r"
  from q r have t: "0 \<le> ?t" "?t < 65536" "q = word_of_int ?t"
    by (auto simp add: double_to_uint16_def Let_def split: if_splits)
  have u: "uint q = ?t"
    using t by (simp add: uint_word_of_int take_bit_eq_mod)
  have "- 1 < r" using t(1) by (auto simp add: truncate_toward_zero_def split: if_splits)
  moreover have "r < 65536" using t(2) by (auto simp add: truncate_toward_zero_def split: if_splits)
  moreover have "?t = (if 0 \<le> r then \<lfloor>r\<rfloor> else 0)"
    using t(1) by (auto simp add: truncate_toward_zero_def ceiling_le_zero intro: antisym)
  ultimately show "\<exists>r. fdiv (Finite 1) (error f) = Finite r \<and> - 1 < r \<and> r < 65536
            \<and> uint (ntohs (drop 2 buf)) = (if 0 \<le> r then \<lfloor>r\<rfloor> else 0)"
    using r u header_fields(3) [OF b] by auto
next
  fix buffer g assume g: "load fdiv crc32 buffer = Inr g"
  from Filter_init_Inr_error [OF load_Inr(3) [OF g]]
  show "error g = fdiv (Finite 1) (Finite (real (unat (ntohs (drop 2 buffer)))))"
    by (simp add: uint16_to_double_def)
qed

theorem error_rate_reciprocal_truncated_witness:
  "dump exact_fdiv crc32_standard example_filter_3_8 = Some [0x3D, 0x8F, 0, 2, 0, 0, 0, 1, 0]
   \<and> bytes example_filter_3_8 = length (bf example_filter_3_8)
   \<and> exact_fdiv (Finite 1) (error example_filter_3_8) = Finite (8/3)
   \<and> uint (ntohs (drop 2 [0x3D, 0x8F, 0, 2, 0, 0, 0, 1, 0])) = \<lfloor>8/3 :: real\<rfloor>
   \<and> \<lfloor>8/3 :: real\<rfloor> = 2 \<and> round (8/3 :: real) = 3
   \<and> load exact_fdiv crc32_standard [0x3D, 0x8F, 0, 2, 0, 0, 0, 1, 0] = Inr example_filter
   \<and> error example_filter = exact_fdiv (Finite 1) (Finite (real (unat (2 :: uint16_t))))"
proof -
  note t = error_rate_reciprocal_truncated [of exact_fdiv crc32_standard]
  have d: "dump exact_fdiv crc32_standard example_filter_3_8
             = Some [0x3D, 0x8F, 0, 2, 0, 0, 0, 1, 0]"
    by (rule dump_example_3_8)
  have b: "bytes example_filter_3_8 = length (bf example_filter_3_8)"
    by (simp add: example_filter_3_8_def)
  have e: "exact_fdiv (Finite 1) (error example_filter_3_8) = Finite (8/3)"
    by (simp add: example_filter_3_8_def exact_fdiv_def)
  from t d b obtain r where
    r: "exact_fdiv (Finite 1) (error example_filter_3_8) = Finite r"
       "uint (ntohs (drop 2 [0x3D, 0x8F, 0, 2, 0, 0, 0, 1, 0]))
          = (if 0 \<le> r then \<lfloor>r\<rfloor> else 0)"
    by blast
  from r(1) e have "r = 8/3" by (simp only: double.inject)
  with r(2) have u: "uint (ntohs (drop 2 [0x3D, 0x8F, 0, 2, 0, 0, 0, 1, 0])) = \<lfloor>8/3 :: real\<rfloor>"
    by (simp only: ) simp
  have f: "\<lfloor>8/3 :: real\<rfloor> = 2" "round (8/3 :: real) = 3"
    by (simp_all add: round_def)
  from t load_example
  have l: "error example_filter = exact_fdiv (Finite 1) (Finite (real (unat (2 :: uint16_t))))"
    by (simp add: example_filter_fields exact_fdiv_def)
  from d b e u f load_example l show ?thesis by blast
qed

section \<open>Round trip\<close>

text \<open>
  C1, as the code has it. Let \<open>f\<close> be a constructed filter whose bit array is shorter
  than \<open>2^31\<close> bytes (the length field is a C \<^verbatim>\<open>int\<close>) and whose dump is defined, and let
  \<open>q\<close> be the 16-bit reciprocal written to the header. Then \<open>load\<close> of the dump is the
  construction from the capacity of \<open>f\<close>, the error rate \<open>1.0 / q\<close> and the bit array of
  \<open>f\<close>. Whenever it yields a filter, that filter has the bit array and the capacity of
  \<open>f\<close>; it yields one exactly when \<open>bloom_init\<close> accepts the capacity with the error
  rate \<open>1.0 / q\<close> and derives the byte length of \<open>f\<close> again; otherwise it fails with
  \<open>InvalidParameters\<close> or \<open>LengthMismatch\<close>. When \<open>1.0 / q\<close> is the error rate of \<open>f\<close> (the
  encoding lost nothing), \<open>load\<close> of the dump is \<open>f\<close> itself.
\<close>

theorem round_trip_when_size_rederived:
  assumes "Filter_init n e src = Inr f"
    and "int (bytes f) < 2 ^ 31"
    and "dump fdiv crc32 f = Some buf"
  shows "\<exists>q. double_to_uint16 (fdiv (Finite 1) (error f)) = Some q
     \<and> load fdiv crc32 buf
         = Filter_init (entries f) (fdiv (Finite 1) (uint16_to_double q))
             (Some (Buffer (bf f)))
     \<and> (\<forall>g. load fdiv crc32 buf = Inr g \<longrightarrow>
            bf g = bf f \<and> entries g = entries f \<and> bytes g = bytes f
            \<and> error g = fdiv (Finite 1) (uint16_to_double q))
     \<and> ((\<exists>g. load fdiv crc32 buf = Inr g) \<longleftrightarrow>
          (\<exists>b. bloom_init (entries f) (fdiv (Finite 1) (uint16_to_double q)) = Some b
               \<and> bytes b = bytes f))
     \<and> (load fdiv crc32 buf = Inl InvalidParameters \<longleftrightarrow>
          bloom_init (entries f) (fdiv (Finite 1) (uint16_to_double q)) = None)
     \<and> (load fdiv crc32 buf = Inl LengthMismatch \<longleftrightarrow>
          (\<exists>b. bloom_init (entries f) (fdiv (Finite 1) (uint16_to_double q)) = Some b
               \<and> bytes b \<noteq> bytes f))
     \<and> (fdiv (Finite 1) (uint16_to_double q) = error f \<longrightarrow> load fdiv crc32 buf = Inr f)"
proof -
  from assms(1) have v: "bloom_valid f" by (rule Filter_init_valid)
  note len = valid_lengths [OF v]
  from assms(3) len obtain q where
    q: "double_to_uint16 (fdiv (Finite 1) (error f)) = Some q" and
    l: "load fdiv crc32 buf
       = Filter_init (entries f) (fdiv (Finite 1) (uint16_to_double q)) (Some (Buffer (bf f)))"
    by (rule load_dump)
  define e' where "e' = fdiv (Finite 1) (uint16_to_double q)"
  from assms(2) len(1) have "int (length (bf f)) < 2 ^ 31" by simp
  from Filter_init_Buffer_exact [OF this, of "entries f" e']
  have R: "load fdiv crc32 buf = (case bloom_init (entries f) e' of
        None \<Rightarrow> Inl InvalidParameters
      | Some b \<Rightarrow> if bytes b \<noteq> length (bf f) then Inl LengthMismatch
                  else Inr (b\<lparr>bf := bf f\<rparr>))"
    by (simp only: l e'_def)
  have g: "\<forall>g. load fdiv crc32 buf = Inr g \<longrightarrow>
            bf g = bf f \<and> entries g = entries f \<and> bytes g = bytes f \<and> error g = e'"
  proof (intro allI impI)
    fix g assume "load fdiv crc32 buf = Inr g"
    with R obtain b where b: "bloom_init (entries f) e' = Some b" "bytes b = bytes f"
      "g = b\<lparr>bf := bf f\<rparr>"
      by (cases "bloom_init (entries f) e'") (auto simp add: len(1) split: if_splits)
    from bloom_init_valid [OF b(1)] b(2,3)
    show "bf g = bf f \<and> entries g = entries f \<and> bytes g = bytes f \<and> error g = e'"
      by simp
  qed
  have i: "(\<exists>g. load fdiv crc32 buf = Inr g) \<longleftrightarrow>
          (\<exists>b. bloom_init (entries f) e' = Some b \<and> bytes b = bytes f)"
    unfolding R by (cases "bloom_init (entries f) e'") (simp_all add: len(1))
  have p: "load fdiv crc32 buf = Inl InvalidParameters \<longleftrightarrow> bloom_init (entries f) e' = None"
    unfolding R by (cases "bloom_init (entries f) e'") (simp_all add: len(1))
  have m: "load fdiv crc32 buf = Inl LengthMismatch \<longleftrightarrow>
          (\<exists>b. bloom_init (entries f) e' = Some b \<and> bytes b \<noteq> bytes f)"
    unfolding R by (cases "bloom_init (entries f) e'") (simp_all add: len(1))
  have s: "e' = error f \<longrightarrow> load fdiv crc32 buf = Inr f"
  proof
    assume ee: "e' = error f"
    from assms(1) obtain b where
      "bloom_init (entries f) (error f) = Some b" "bytes b = bytes f" "b\<lparr>bf := bf f\<rparr> = f"
      by (rule Filter_init_Inr_bloom_init)
    with R ee show "load fdiv crc32 buf = Inr f" by (simp add: len(1))
  qed
  from q l g i p m s show ?thesis unfolding e'_def by (intro exI [of _ q] conjI)
qed

theorem round_trip_when_size_rederived_witness:
  "Filter_init 1 (Finite (1/2)) None = Inr example_filter
   \<and> int (bytes example_filter) < 2 ^ 31
   \<and> dump exact_fdiv crc32_standard example_filter = Some [0x3D, 0x8F, 0, 2, 0, 0, 0, 1, 0]
   \<and> exact_fdiv (Finite 1) (uint16_to_double 2) = error example_filter
   \<and> load exact_fdiv crc32_standard [0x3D, 0x8F, 0, 2, 0, 0, 0, 1, 0] = Inr example_filter
   \<and> (\<exists>q. double_to_uint16 (exact_fdiv (Finite 1) (error example_filter)) = Some q
         \<and> (\<exists>b. bloom_init (entries example_filter)
                   (exact_fdiv (Finite 1) (uint16_to_double q)) = Some b
               \<and> bytes b = bytes example_filter))"
proof -
  have a: "Filter_init 1 (Finite (1/2)) None = Inr example_filter"
    by (rule Filter_init_example)
  have b: "int (bytes example_filter) < 2 ^ 31" by (simp add: example_filter_def)
  note t = round_trip_when_size_rederived [OF a b dump_example]
  from t load_example
  have "\<exists>q. double_to_uint16 (exact_fdiv (Finite 1) (error example_filter)) = Some q
         \<and> (\<exists>b. bloom_init (entries example_filter)
                   (exact_fdiv (Finite 1) (uint16_to_double q)) = Some b
               \<and> bytes b = bytes example_filter)"
    by blast
  moreover have "exact_fdiv (Finite 1) (uint16_to_double 2) = error example_filter"
    by (simp add: exact_fdiv_def uint16_to_double_def example_filter_def)
  ultimately show ?thesis using a b dump_example load_example by blast
qed

text \<open>
  The claim as stated fails: \<^verbatim>\<open>Filter(1, 0.75)\<close> is constructed, its dump carries the
  reciprocal \<open>1\<close> (the integral part of \<open>1/0.75\<close>), and \<open>load\<close> of the dump asks for the
  error rate \<open>1.0\<close>, which construction rejects.
\<close>

theorem round_trip_counterexample:
  "Filter_init 1 (Finite (3/4)) None = Inr example_filter_3_4
   \<and> dump exact_fdiv crc32_standard example_filter_3_4
       = Some [0x3D, 0x8F, 0, 1, 0, 0, 0, 1, 0]
   \<and> load exact_fdiv crc32_standard [0x3D, 0x8F, 0, 1, 0, 0, 0, 1, 0]
       = Inl InvalidParameters"
  by (simp add: Filter_init_def bloom_init_example_3_4 dump_example_3_4 load_example_3_4)

section \<open>The length of the seed buffer\<close>

text \<open>
  C7. The length test of \<^verbatim>\<open>Filter_init\<close> compares \<^verbatim>\<open>(int)buf.len\<close>. A seed buffer of
  \<open>2^32 + 1\<close> bytes for \<^verbatim>\<open>Filter(1, 0.5, data)\<close>, whose derived length is one byte, passes
  the test: the constructor returns a filter holding the first byte of the buffer
  instead of failing with \<open>LengthMismatch\<close>.
\<close>

theorem Filter_init_accepts_wrapped_length:
  "length (zeros 4294967297) \<noteq> bytes example_filter
   \<and> bloom_init 1 (Finite (1/2)) = Some example_filter
   \<and> Filter_init 1 (Finite (1/2)) (Some (Buffer (zeros 4294967297))) = Inr example_filter"
proof -
  have "Filter_init 1 (Finite (1/2)) (Some (Buffer (zeros 4294967297))) = Inr example_filter"
    by (simp add: Filter_init_Buffer bloom_init_example example_filter_fields length_zeros
        sint_wrapped_length take_zeros zeros_1)
  then show ?thesis by (simp add: bloom_init_example example_filter_def length_zeros)
qed

section \<open>All or nothing\<close>

text \<open>
  C9. Construction and \<open>load\<close> end in one of two ways: with one of the listed errors
  and no filter, or with a filter that satisfies the invariant \<open>bloom_valid\<close> and holds
  the capacity and the error rate it was asked for (for \<open>load\<close>: the payload as its bit
  array).
\<close>

theorem construction_and_load_all_or_nothing:
  "(case Filter_init n e src of
      Inl err \<Rightarrow> err \<in> {InvalidParameters, UnsupportedBuffer, BufferUnavailable, LengthMismatch}
    | Inr f \<Rightarrow> bloom_valid f \<and> entries f = n \<and> error f = e)
   \<and> (case load fdiv crc32 buffer of
      Inl err \<Rightarrow> err \<in> {TruncatedInput, ChecksumMismatch, InvalidParameters, LengthMismatch}
    | Inr f \<Rightarrow> bloom_valid f \<and> bf f = take (bytes f) (drop 8 buffer))"
proof
  show "case Filter_init n e src of
      Inl err \<Rightarrow> err \<in> {InvalidParameters, UnsupportedBuffer, BufferUnavailable, LengthMismatch}
    | Inr f \<Rightarrow> bloom_valid f \<and> entries f = n \<and> error f = e"
  proof (cases "Filter_init n e src")
    case (Inl err)
    with Filter_init_errors [OF Inl] show ?thesis by auto
  next
    case (Inr f)
    with Filter_init_valid [OF Inr] Filter_init_Inr_entries [OF Inr] Filter_init_Inr_error [OF Inr]
    show ?thesis by simp
  qed
next
  let ?R = "Filter_init (ntohl (drop 4 buffer))
           (fdiv (Finite 1) (uint16_to_double (ntohs (drop 2 buffer))))
           (Some (Buffer (drop 8 buffer)))"
  show "case load fdiv crc32 buffer of
      Inl err \<Rightarrow> err \<in> {TruncatedInput, ChecksumMismatch, InvalidParameters, LengthMismatch}
    | Inr f \<Rightarrow> bloom_valid f \<and> bf f = take (bytes f) (drop 8 buffer)"
  proof (cases "load fdiv crc32 buffer")
    case (Inl err)
    with load_cases [of fdiv crc32 buffer] Filter_init_Buffer_errors [of _ _ "drop 8 buffer" err]
    show ?thesis by auto
  next
    case (Inr f)
    with load_cases [of fdiv crc32 buffer] have "?R = Inr f" by auto
    with Inr Filter_init_valid [of _ _ _ f] Filter_init_Buffer_bf [of _ _ _ f]
    show ?thesis by simp
  qed
qed

section \<open>No false negatives\<close>

text \<open>
  C2. For every valid filter, every member \<open>x\<close> and every further sequence \<open>ys\<close> of
  members: after \<open>x\<close> has been added, the check of \<open>x\<close> is true, and it stays true
  after all of \<open>ys\<close> have been added; a bit that is set stays set under any sequence
  of additions.
\<close>

theorem no_false_negatives:
  assumes "bloom_valid f"
  shows "Filter_check h1 h2 (foldl (Filter_add h1 h2) (Filter_add h1 h2 f x) ys) x
     \<and> (\<forall>p. p < bits f \<and> test_bit_at (bf f) p \<longrightarrow>
            test_bit_at (bf (foldl (Filter_add h1 h2) f ys)) p)"
proof
  have v: "bloom_valid (bloom_add h1 h2 f x)"
    using assms by (rule bloom_add_valid)
  have "bloom_check h1 h2 (bloom_add h1 h2 f x) x"
    using assms by (rule bloom_check_after_add)
  from foldl_add_check [OF v this]
  show "Filter_check h1 h2 (foldl (Filter_add h1 h2) (Filter_add h1 h2 f x) ys) x"
    by (simp add: Filter_check_def Filter_add_eq)
  show "\<forall>p. p < bits f \<and> test_bit_at (bf f) p \<longrightarrow>
            test_bit_at (bf (foldl (Filter_add h1 h2) f ys)) p"
    using foldl_add_keeps_bit [OF assms] by (simp add: Filter_add_eq)
qed

theorem no_false_negatives_witness:
  "bloom_valid example_filter
   \<and> Filter_check length (\<lambda>m. 1)
       (foldl (Filter_add length (\<lambda>m. 1)) (Filter_add length (\<lambda>m. 1) example_filter [7])
          [ [1, 2], [] ]) [7]
   \<and> bf (Filter_add length (\<lambda>m. 1) example_filter [7]) = [2]
   \<and> bf (foldl (Filter_add length (\<lambda>m. 1)) (Filter_add length (\<lambda>m. 1) example_filter [7])
          [ [1, 2], [] ]) = [3]"
proof -
  have b: "bf (Filter_add length (\<lambda>m. 1) example_filter [7]) = [2]"
    by (simp add: Filter_add_def bloom_add_def probe_positions_def example_filter_def
        set_bit_at_def)
  have c: "bf (foldl (Filter_add length (\<lambda>m. 1)) (Filter_add length (\<lambda>m. 1) example_filter [7])
          [ [1, 2], [] ]) = [3]"
    by (simp add: Filter_add_def bloom_add_def probe_positions_def example_filter_def
        set_bit_at_def)
  from no_false_negatives [OF example_filter_valid, of length "\<lambda>m. 1" "[7]" "[ [1, 2], [] ]"]
    example_filter_valid b c
  show ?thesis by simp
qed

section \<open>Checksum sensitivity\<close>

text \<open>
  C5, as the code has it. Flipping payload bit \<open>i\<close> of a dump leaves the header
  unchanged, and \<open>load\<close> of the result fails with \<open>ChecksumMismatch\<close> exactly when the
  CRC values of the original and of the flipped payload differ by a word whose lower
  and upper halves are different; when the halves are equal the fold cancels the
  difference and the checksum test passes. For the standard CRC-32 the difference is
  the \<open>8 * (n - i div 8)\<close>-th power of the CRC shift at the flipped bit, \<open>n\<close> the payload
  length: it depends only on the place of the bit counted from the end.
\<close>

theorem flipped_payload_bit_detected_unless_fold_cancels:
  assumes "dump fdiv crc32 f = Some buf" and "bytes f = length (bf f)"
    and "i < 8 * length (bf f)"
  shows "take 8 (flip_bit_at (64 + i) buf) = take 8 buf
     \<and> drop 8 (flip_bit_at (64 + i) buf) = flip_bit_at i (bf f)
     \<and> (load fdiv crc32 (flip_bit_at (64 + i) buf) = Inl ChecksumMismatch \<longleftrightarrow>
          (crc32 0 (bf f) XOR crc32 0 (flip_bit_at i (bf f))) AND 0xFFFF
            \<noteq> drop_bit 16 (crc32 0 (bf f) XOR crc32 0 (flip_bit_at i (bf f))))
     \<and> crc32_standard 0 (bf f) XOR crc32_standard 0 (flip_bit_at i (bf f))
          = (crc32_shift ^^ (8 * (length (bf f) - i div 8))) (2 ^ (i mod 8))"
proof -
  from assms(1,2) obtain q where
    b: "buf = htons (compute_checksum crc32 (bf f) (length (bf f))) @ htons q
           @ htonl (entries f) @ bf f"
    by (rule dump_Some)
  note l = load_flipped_payload(1) [OF b assms(3)]
    load_flipped_payload(2) [OF b assms(3), of fdiv crc32]
  have t: "take 8 (flip_bit_at (64 + i) buf) = take 8 buf"
    unfolding l(1) by (simp add: b)
  have d: "drop 8 (flip_bit_at (64 + i) buf) = flip_bit_at i (bf f)"
    by (simp add: l(1))
  have e: "compute_checksum crc32 (bf f) (length (bf f))
             = compute_checksum crc32 (flip_bit_at i (bf f)) (length (bf f))
           \<longleftrightarrow> (crc32 0 (bf f) XOR crc32 0 (flip_bit_at i (bf f))) AND 0xFFFF
             = drop_bit 16 (crc32 0 (bf f) XOR crc32 0 (flip_bit_at i (bf f)))"
    using compute_checksum_eq_iff [of crc32 "bf f" "flip_bit_at i (bf f)"]
    by (simp only: length_flip_bit_at)
  have "load fdiv crc32 (flip_bit_at (64 + i) buf) = Inl ChecksumMismatch \<longleftrightarrow>
          compute_checksum crc32 (flip_bit_at i (bf f)) (length (bf f))
            \<noteq> compute_checksum crc32 (bf f) (length (bf f))"
    unfolding l(2) by (simp add: instantiate_filter_eq Filter_init_not_checksum)
  with e have c: "load fdiv crc32 (flip_bit_at (64 + i) buf) = Inl ChecksumMismatch \<longleftrightarrow>
          (crc32 0 (bf f) XOR crc32 0 (flip_bit_at i (bf f))) AND 0xFFFF
            \<noteq> drop_bit 16 (crc32 0 (bf f) XOR crc32 0 (flip_bit_at i (bf f)))"
    by metis
  from t d c crc32_standard_flip [OF assms(3)] show ?thesis by blast
qed

theorem flipped_payload_bit_detected_unless_fold_cancels_witness:
  "dump exact_fdiv crc32_standard example_filter = Some [0x3D, 0x8F, 0, 2, 0, 0, 0, 1, 0]
   \<and> bytes example_filter = length (bf example_filter)
   \<and> 0 < 8 * length (bf example_filter)
   \<and> flip_bit_at (64 + 0) [0x3D, 0x8F, 0, 2, 0, 0, 0, 1, 0] = [0x3D, 0x8F, 0, 2, 0, 0, 0, 1, 1]
   \<and> crc32_standard 0 [0] XOR crc32_standard 0 [1] = 0x77073096
   \<and> load exact_fdiv crc32_standard [0x3D, 0x8F, 0, 2, 0, 0, 0, 1, 1] = Inl ChecksumMismatch"
proof -
  have p: "0 < 8 * length (bf example_filter)" by (simp add: example_filter_fields)
  have f: "flip_bit_at (64 + 0) [0x3D, 0x8F, 0, 2, 0, 0, 0, 1, 0]
             = [0x3D, 0x8F, 0, 2, 0, 0, 0, 1, 1 :: byte]"
    by (simp add: flip_bit_at_def)
  have g: "flip_bit_at 0 [0 :: byte] = [1]"
    by (simp add: flip_bit_at_def)
  have x: "crc32_standard 0 [0] XOR crc32_standard 0 [1] = 0x77073096"
    by (simp add: crc32_standard_zero_byte crc32_standard_one_byte)
  note t = flipped_payload_bit_detected_unless_fold_cancels
             [OF dump_example example_filter_fields(1) p]
  let ?d = "crc32_standard 0 (bf example_filter)
              XOR crc32_standard 0 (flip_bit_at 0 (bf example_filter))"
  from t have i: "load exact_fdiv crc32_standard
        (flip_bit_at (64 + 0) [0x3D, 0x8F, 0, 2, 0, 0, 0, 1, 0]) = Inl ChecksumMismatch
      \<longleftrightarrow> ?d AND 0xFFFF \<noteq> drop_bit 16 ?d"
    by blast
  have "?d = 0x77073096" unfolding example_filter_fields(2) g by (rule x)
  then have "?d AND 0xFFFF \<noteq> drop_bit 16 ?d" by simp
  with i have "load exact_fdiv crc32_standard
                 (flip_bit_at (64 + 0) [0x3D, 0x8F, 0, 2, 0, 0, 0, 1, 0]) = Inl ChecksumMismatch"
    by blast
  with f have "load exact_fdiv crc32_standard [0x3D, 0x8F, 0, 2, 0, 0, 0, 1, 1]
                 = Inl ChecksumMismatch"
    by (simp only: )
  with dump_example example_filter_fields(1) p f x show ?thesis by (intro conjI)
qed

text \<open>
  The claim as stated fails: in the dump of the fresh filter \<^verbatim>\<open>Filter(172032, 0.5)\<close>,
  flipping bit 6 of payload byte 9520 (bit 76166 of the payload) changes the CRC-32
  from \<open>0xAF0F7F5C\<close> to \<open>0x307EE02D\<close>. The two differ by \<open>0x9F719F71\<close>, whose halves are
  equal, so both fold to the checksum \<open>0xD053\<close> of the header: \<open>load\<close> accepts the buffer
  and returns a filter with the flipped bit.
\<close>

theorem undetected_payload_flip:
  "Filter_init 172032 (Finite (1/2)) None = Inr large_filter
   \<and> dump exact_fdiv crc32_standard large_filter = Some large_dump
   \<and> undetected_bit < 8 * length (bf large_filter)
   \<and> crc32_standard 0 (bf large_filter) = 0xAF0F7F5C
   \<and> crc32_standard 0 (flip_bit_at undetected_bit (bf large_filter)) = 0x307EE02D
   \<and> load exact_fdiv crc32_standard (flip_bit_at (64 + undetected_bit) large_dump)
       = Inr (large_filter\<lparr>bf := flip_bit_at undetected_bit (bf large_filter)\<rparr>)"
proof -
  let ?p' = "flip_bit_at undetected_bit (zeros 31024)"
  have a: "Filter_init 172032 (Finite (1/2)) None = Inr large_filter"
    by (simp add: Filter_init_def bloom_init_large)
  have u: "undetected_bit < 8 * length (zeros 31024)"
    by (simp add: undetected_bit_def length_zeros)
  have l: "int (length ?p') < 2 ^ 31" "length ?p' = 31024"
    by (simp_all add: length_flip_bit_at length_zeros)
  have e: "exact_fdiv (Finite 1) (uint16_to_double 2) = Finite (1/2)"
    by (simp add: exact_fdiv_def uint16_to_double_def)
  have "load exact_fdiv crc32_standard (flip_bit_at (64 + undetected_bit) large_dump)
          = instantiate_filter exact_fdiv 172032 2 ?p' (length (zeros 31024))"
    using load_flipped_payload(2) [OF large_dump_header u, of exact_fdiv crc32_standard]
    by (simp add: length_zeros undetected_flip_same_checksum)
  also have "\<dots> = Filter_init 172032 (Finite (1/2)) (Some (Buffer ?p'))"
    by (simp add: instantiate_filter_eq e l(2) length_zeros)
  also have "\<dots> = Inr (large_filter\<lparr>bf := ?p'\<rparr>)"
    by (simp add: Filter_init_Buffer_exact [OF l(1)] bloom_init_large l(2) large_filter_fields)
  finally show ?thesis
    using a dump_large u crc32_standard_large crc32_standard_flipped_large
    by (simp add: large_filter_fields)
qed

end
